theory Spec2Isabelle
  imports Complex_Main
begin

section \<open>Python primitives used by the retrieval pipeline\<close>

text \<open>
  A Python \<open>str\<close> is modelled as a \<open>string\<close> (a list of characters, one \<open>char\<close>
  per code point below 256); Python's unbounded \<open>int\<close> is \<open>int\<close>.
\<close>

definition py_index :: "nat \<Rightarrow> int \<Rightarrow> nat" where
  \<comment> \<open>How a slice bound is clipped: a negative bound counts from the end and stops at 0,
      a bound beyond the length stops at the length.\<close>
  "py_index n i = (if i < 0 then nat (max (i + int n) 0) else min (nat i) n)"

definition py_slice :: "'a list \<Rightarrow> int \<Rightarrow> int \<Rightarrow> 'a list" where
  \<comment> \<open>\<open>xs[i:j]\<close>\<close>
  "py_slice xs i j =
     (let lo = py_index (length xs) i; hi = py_index (length xs) j
      in take (hi - lo) (drop lo xs))"

definition occurs_at :: "string \<Rightarrow> string \<Rightarrow> nat \<Rightarrow> bool" where
  \<comment> \<open>\<open>s[i : i + len(sub)] == sub\<close> with the whole occurrence inside \<open>s\<close>\<close>
  "occurs_at s sub i = (i + length sub \<le> length s \<and> take (length sub) (drop i s) = sub)"

fun rfind_from :: "string \<Rightarrow> string \<Rightarrow> nat \<Rightarrow> int" where
  "rfind_from s sub 0 = (if occurs_at s sub 0 then 0 else - 1)"
| "rfind_from s sub (Suc i) =
     (if occurs_at s sub (Suc i) then int (Suc i) else rfind_from s sub i)"

definition rfind :: "string \<Rightarrow> string \<Rightarrow> int" where
  \<comment> \<open>\<open>s.rfind(sub)\<close>: the highest index at which \<open>sub\<close> occurs in \<open>s\<close>, or \<open>-1\<close>\<close>
  "rfind s sub = rfind_from s sub (length s)"

definition isspace :: "char \<Rightarrow> bool" where
  \<comment> \<open>\<open>str.isspace\<close> on the code points below 256: TAB, LF, VT, FF, CR, FS, GS, RS, US,
      SPACE, NEL and NBSP\<close>
  "isspace c =
     (let n = (of_char c :: nat)
      in (9 \<le> n \<and> n \<le> 13) \<or> (28 \<le> n \<and> n \<le> 31) \<or> n = 32 \<or> n = 133 \<or> n = 160)"

definition strip :: "string \<Rightarrow> string" where
  \<comment> \<open>\<open>s.strip()\<close>\<close>
  "strip s = rev (dropWhile isspace (rev (dropWhile isspace s)))"

section \<open>text_processing.py: chunking\<close>

record TextChunk =
  text' :: string
  index :: int
  start_char :: int
  end_char :: int

definition separators :: "string list" where
  "separators = [[CHR 0x0A, CHR 0x0A], [CHR 0x0A], ''. '', ''! '', ''? '', ''; '']"

fun try_separators :: "string \<Rightarrow> int \<Rightarrow> string list \<Rightarrow> int option" where
  \<comment> \<open>the \<open>for separator in [...]\<close> loop of \<open>_find_break_point\<close>; \<open>None\<close> when it falls
      through without returning\<close>
  "try_separators search_text search_start [] = None"
| "try_separators search_text search_start (separator # rest) =
     (let idx = rfind search_text separator
      in if idx \<noteq> - 1 then Some (search_start + idx + int (length separator))
         else try_separators search_text search_start rest)"

definition find_break_point :: "string \<Rightarrow> int \<Rightarrow> int \<Rightarrow> int" where
  "find_break_point text start end' =
     (let search_start = max (start + 1) (end' - 200);
          search_text = py_slice text search_start end'
      in case try_separators search_text search_start separators of
           Some r \<Rightarrow> r
         | None \<Rightarrow>
             (let idx = rfind search_text '' ''
              in if idx \<noteq> - 1 then search_start + idx + 1 else end'))"

fun loop_body :: "string \<Rightarrow> int \<Rightarrow> int \<Rightarrow> int \<times> int \<times> TextChunk list
    \<Rightarrow> int \<times> int \<times> TextChunk list" where
  \<comment> \<open>one iteration of the \<open>while\<close> loop of \<open>chunk_text\<close> on the loop variables
      \<open>(start, index, chunks)\<close>\<close>
  "loop_body text chunk_size chunk_overlap (start, index', chunks) =
     (let end0 = min (start + chunk_size) (int (length text));
          end' = (if end0 < int (length text) then find_break_point text start end0 else end0);
          chunk_text_content = strip (py_slice text start end');
          appended = (if chunk_text_content \<noteq> []
                      then (index' + 1,
                            chunks @ [\<lparr>text' = chunk_text_content, index = index',
                                       start_char = start, end_char = end'\<rparr>])
                      else (index', chunks));
          next_start = end' - chunk_overlap;
          next_start = (if next_start \<le> start then end' else next_start)
      in (next_start, appended))"

partial_function (option) chunk_loop :: "string \<Rightarrow> int \<Rightarrow> int \<Rightarrow> int \<times> int \<times> TextChunk list
    \<Rightarrow> TextChunk list option" where
  \<comment> \<open>\<open>while start < len(text)\<close>; \<open>None\<close> is a loop that never ends\<close>
  "chunk_loop text chunk_size chunk_overlap s =
     (if fst s < int (length text)
      then chunk_loop text chunk_size chunk_overlap (loop_body text chunk_size chunk_overlap s)
      else Some (snd (snd s)))"

declare chunk_loop.simps [code]

definition chunk_text :: "string \<Rightarrow> int \<Rightarrow> int \<Rightarrow> TextChunk list option" where
  "chunk_text text chunk_size chunk_overlap =
     (if text = [] then Some []
      else if int (length text) \<le> chunk_size
      then Some [\<lparr>text' = text, index = 0, start_char = 0, end_char = int (length text)\<rparr>]
      else chunk_loop text chunk_size chunk_overlap (0, 0, []))"

subsection \<open>Well-formedness of a chunk list\<close>

definition indexed_in_order :: "TextChunk list \<Rightarrow> bool" where
  \<comment> \<open>indices are 0..n-1 in emission order and start offsets strictly increase\<close>
  "indexed_in_order cs =
     (map index cs = map int [0..<length cs] \<and> sorted_wrt (<) (map start_char cs))"

definition offsets_in_range :: "string \<Rightarrow> TextChunk \<Rightarrow> bool" where
  "offsets_in_range text c =
     (0 \<le> start_char c \<and> start_char c < end_char c \<and> end_char c \<le> int (length text))"

definition trimmed_slice :: "string \<Rightarrow> TextChunk \<Rightarrow> bool" where
  \<comment> \<open>the chunk's text is the trim of the untrimmed slice and is not empty\<close>
  "trimmed_slice text c =
     (text' c = strip (py_slice text (start_char c) (end_char c)) \<and> text' c \<noteq> [])"

definition loop_inv :: "string \<Rightarrow> int \<times> int \<times> TextChunk list \<Rightarrow> bool" where
  \<comment> \<open>what holds of \<open>(start, index, chunks)\<close> at the head of the \<open>while\<close> loop\<close>
  "loop_inv text s =
     (case s of (start, index', chunks) \<Rightarrow>
        0 \<le> start \<and> index' = int (length chunks) \<and> indexed_in_order chunks \<and>
        list_all (offsets_in_range text) chunks \<and> list_all (trimmed_slice text) chunks \<and>
        list_all (\<lambda>c. start_char c < start) chunks)"

subsection \<open>Occurrences of a separator in a search region\<close>




section \<open>The remote services and what a run leaves behind\<close>

text \<open>
  The code talks to two remote services through boto3 clients and reads the clock and the
  random generator. A run is sequential, so the services are modelled by what they answer
  to the successive calls: the answer to a call is a function of the number of calls made
  before it and of the request. What the run does to the outside (the requests it
  sends, the pauses it makes, the warnings it logs) is recorded in a trace that every
  operation takes and returns. The settings passed unchanged along with every request
  (model id, bucket and index names) are left out of the requests.

  A Python \<open>float\<close> is modelled by the real number it denotes. Where the code subtracts
  floats the exact difference is rounded by \<open>round64\<close>, and a float literal stands for the
  binary64 value nearest to it.
\<close>

datatype exn =
    ClientError string string  \<comment> \<open>\<open>botocore.exceptions.ClientError\<close>: error code, \<open>str(e)\<close>\<close>
  | OtherError string          \<comment> \<open>any exception that is not a \<open>ClientError\<close>: \<open>str(e)\<close>\<close>

fun str_exn :: "exn \<Rightarrow> string" where
  "str_exn (ClientError code msg) = msg"
| "str_exn (OtherError msg) = msg"

type_synonym embedding = "real list"

record body =
  inputText :: string
  dimensions :: nat
  normalize :: bool

datatype py_value = Str string | Num nat

record vector_metadata =
  document_id :: string
  document_filename :: string
  chunk_index :: nat
  chunk_text' :: string

record vector =
  key :: string
  data :: embedding
  metadata :: vector_metadata

record returned_vector =
  distance :: "real option"                         \<comment> \<open>\<open>None\<close>: the key is absent\<close>
  returned_metadata :: "(string \<Rightarrow> py_value option) option"

datatype vectors_request =
    PutVectors "vector list"
  | DeleteVectors "string list"
  | QueryVectors "embedding option" int

record env =
  vector_dimensions :: nat
  invoke_model :: "nat \<Rightarrow> body \<Rightarrow> exn + embedding"
  uniform01 :: "nat \<Rightarrow> real"  \<comment> \<open>the successive values of \<open>random.uniform(0, 1)\<close>\<close>
  put_vectors :: "nat \<Rightarrow> vector list \<Rightarrow> exn + unit"
  delete_vectors :: "nat \<Rightarrow> string list \<Rightarrow> exn + unit"
  query_vectors :: "nat \<Rightarrow> embedding option \<Rightarrow> int \<Rightarrow> exn + returned_vector list"
  format_2f :: "real \<Rightarrow> string"  \<comment> \<open>the float format \<open>:.2f\<close>\<close>
  round64 :: "real \<Rightarrow> real"  \<comment> \<open>the rounding of a real to the nearest binary64 float\<close>

record trace =
  calls :: "body list"                 \<comment> \<open>requests sent to the embedding service\<close>
  draws :: nat                         \<comment> \<open>values taken from the random generator\<close>
  sleeps :: "real list"                \<comment> \<open>\<open>time.sleep\<close> delays, in seconds\<close>
  vector_calls :: "vectors_request list"  \<comment> \<open>requests sent to the vector index\<close>
  warnings :: "(nat \<times> exn) list"       \<comment> \<open>\<open>logger.warning\<close> of \<open>delete_document_vectors\<close>\<close>

section \<open>embeddings_client.py\<close>

definition MAX_RETRIES :: nat where
  "MAX_RETRIES = 5"

definition EMBEDDING_INPUT_LIMIT_CHARS :: nat where
  "EMBEDDING_INPUT_LIMIT_CHARS = 30000"

definition rate_limit_code :: "string \<Rightarrow> bool" where
  \<comment> \<open>\<open>error_code in ("ThrottlingException", "TooManyRequestsException")\<close>\<close>
  "rate_limit_code error_code =
     (error_code = ''ThrottlingException'' \<or> error_code = ''TooManyRequestsException'')"

fun attempt_loop :: "env \<Rightarrow> body \<Rightarrow> nat list \<Rightarrow> trace \<Rightarrow> (exn + embedding option) \<times> trace" where
  \<comment> \<open>\<open>for attempt in range(MAX_RETRIES + 1)\<close>; a loop that ends without \<open>return\<close> or
      \<open>raise\<close> makes the function return Python's \<open>None\<close>\<close>
  "attempt_loop env b [] w = (Inr None, w)"
| "attempt_loop env b (attempt # rest) w =
     (let w1 = w\<lparr>calls := calls w @ [b]\<rparr>
      in case invoke_model env (length (calls w)) b of
           Inr result \<Rightarrow> (Inr (Some result), w1)
         | Inl (ClientError error_code msg) \<Rightarrow>
             if rate_limit_code error_code \<and> attempt < MAX_RETRIES
             then (let delay = min (2 ^ attempt + uniform01 env (draws w1)) 30
                   in attempt_loop env b rest
                        (w1\<lparr>draws := draws w1 + 1, sleeps := sleeps w1 @ [delay]\<rparr>))
             else (Inl (ClientError error_code msg), w1)
         | Inl (OtherError msg) \<Rightarrow> (Inl (OtherError msg), w1))"

definition generate_embedding_vector :: "env \<Rightarrow> string \<Rightarrow> trace
    \<Rightarrow> (exn + embedding option) \<times> trace" where
  "generate_embedding_vector env text w =
     (let text = (if length text > EMBEDDING_INPUT_LIMIT_CHARS
                  then py_slice text 0 (int EMBEDDING_INPUT_LIMIT_CHARS) else text);
          b = \<lparr>inputText = text, dimensions = vector_dimensions env, normalize = True\<rparr>
      in attempt_loop env b [0..<MAX_RETRIES + 1] w)"

fun batch_loop :: "env \<Rightarrow> (nat \<times> string) list \<Rightarrow> embedding option list \<Rightarrow> trace
    \<Rightarrow> (exn + embedding option list) \<times> trace" where
  \<comment> \<open>\<open>for i, text in enumerate(texts)\<close> with the list \<open>embeddings\<close> built so far\<close>
  "batch_loop env [] embeddings w = (Inr embeddings, w)"
| "batch_loop env ((i, text) # rest) embeddings w =
     (case generate_embedding_vector env text w of
        (Inl e, w1) \<Rightarrow> (Inl e, w1)
      | (Inr embedding, w1) \<Rightarrow>
          batch_loop env rest (embeddings @ [embedding])
            (if i > 0 \<and> i mod 20 = 0 then w1\<lparr>sleeps := sleeps w1 @ [1 / 10]\<rparr> else w1))"

definition generate_embeddings_batch :: "env \<Rightarrow> string list \<Rightarrow> trace
    \<Rightarrow> (exn + embedding option list) \<times> trace" where
  "generate_embeddings_batch env texts w = batch_loop env (enumerate 0 texts) [] w"

definition rate_limited :: "exn + embedding \<Rightarrow> bool" where
  \<comment> \<open>the answer of the embedding service is a rate-limit failure\<close>
  "rate_limited r =
     (case r of Inl (ClientError error_code msg) \<Rightarrow> rate_limit_code error_code | _ \<Rightarrow> False)"

definition backoff :: "env \<Rightarrow> nat \<Rightarrow> nat \<Rightarrow> real" where
  \<comment> \<open>the wait before retry number \<open>attempt + 1\<close>, the jitter being draw \<open>d\<close>\<close>
  "backoff env d attempt = min (2 ^ attempt + uniform01 env d) 30"

definition outcome :: "exn + embedding \<Rightarrow> exn + embedding option" where
  \<comment> \<open>what the last answer of the service becomes: its embedding is returned, its
      exception raised\<close>
  "outcome r = (case r of Inl e \<Rightarrow> Inl e | Inr result \<Rightarrow> Inr (Some result))"

definition empty_trace :: trace where
  "empty_trace = \<lparr>calls = [], draws = 0, sleeps = [], vector_calls = [], warnings = []\<rparr>"

definition throttled_twice :: env where
  \<comment> \<open>a world whose embedding service refuses its first two calls for rate limiting and whose
      vector index accepts every call and matches nothing\<close>
  "throttled_twice =
     \<lparr>vector_dimensions = 2,
      invoke_model = (\<lambda>n b. if n < 2 then Inl (ClientError ''ThrottlingException'' ''slow down'')
                             else Inr [1, 0]),
      uniform01 = (\<lambda>n. 1 / 2),
      put_vectors = (\<lambda>n vs. Inr ()),
      delete_vectors = (\<lambda>n ks. Inr ()),
      query_vectors = (\<lambda>n q k. Inr []),
      format_2f = (\<lambda>x. ''0.00''),
      round64 = (\<lambda>x. x)\<rparr>"

definition denied_second :: env where
  \<comment> \<open>a world whose embedding service refuses its second call, not for rate limiting\<close>
  "denied_second =
     \<lparr>vector_dimensions = 2,
      invoke_model = (\<lambda>n b. if n = 1 then Inl (ClientError ''AccessDeniedException'' ''denied'')
                             else Inr [1, 0]),
      uniform01 = (\<lambda>n. 1 / 2),
      put_vectors = (\<lambda>n vs. Inr ()),
      delete_vectors = (\<lambda>n ks. Inr ()),
      query_vectors = (\<lambda>n q k. Inr []),
      format_2f = (\<lambda>x. ''0.00''),
      round64 = (\<lambda>x. x)\<rparr>"

section \<open>vector_search.py\<close>

definition VECTORS_PER_BATCH :: nat where
  "VECTORS_PER_BATCH = 500"

definition METADATA_TEXT_MAX_CHARS :: nat where
  "METADATA_TEXT_MAX_CHARS = 500"

definition digit_char :: "nat \<Rightarrow> char" where
  "digit_char d = char_of (48 + d)"

fun str_nat :: "nat \<Rightarrow> string" where
  \<comment> \<open>\<open>str(i)\<close> of an integer \<open>i \<ge> 0\<close>\<close>
  "str_nat n = (if n < 10 then [digit_char n] else str_nat (n div 10) @ [digit_char (n mod 10)])"

declare str_nat.simps [simp del]

definition vector_key :: "string \<Rightarrow> nat \<Rightarrow> string" where
  \<comment> \<open>the f-string \<open>f"{document_id}#{i}"\<close>\<close>
  "vector_key doc_id i = doc_id @ ''#'' @ str_nat i"

definition range_step :: "nat \<Rightarrow> nat \<Rightarrow> nat list" where
  \<comment> \<open>\<open>range(0, stop, step)\<close> for a positive \<open>step\<close>\<close>
  "range_step stop step = map (\<lambda>k. k * step) [0..<(stop + step - 1) div step]"

definition build_vectors :: "string \<Rightarrow> string \<Rightarrow> string list \<Rightarrow> embedding list \<Rightarrow> vector list" where
  \<comment> \<open>the first loop of \<open>store_document_vectors\<close>, over \<open>enumerate(zip(chunk_texts,
      embeddings))\<close>\<close>
  "build_vectors doc_id filename chunk_texts embeddings =
     map (\<lambda>(i, text, embedding).
            let truncated = py_slice text 0 (int METADATA_TEXT_MAX_CHARS);
                truncated = (if length text > METADATA_TEXT_MAX_CHARS
                             then truncated @ ''...'' else truncated)
            in \<lparr>key = vector_key doc_id i, data = embedding,
                metadata = \<lparr>document_id = doc_id, document_filename = filename,
                             chunk_index = i, chunk_text' = truncated\<rparr>\<rparr>)
         (enumerate 0 (zip chunk_texts embeddings))"

fun store_loop :: "env \<Rightarrow> vector list \<Rightarrow> nat list \<Rightarrow> nat \<Rightarrow> trace \<Rightarrow> (exn + nat) \<times> trace" where
  \<comment> \<open>\<open>for batch_start in range(0, len(vectors), VECTORS_PER_BATCH)\<close>; an exception of
      \<open>put_vectors\<close> is not caught\<close>
  "store_loop env vectors [] stored_count w = (Inr stored_count, w)"
| "store_loop env vectors (batch_start # rest) stored_count w =
     (let batch = py_slice vectors (int batch_start) (int (batch_start + VECTORS_PER_BATCH));
          w1 = w\<lparr>vector_calls := vector_calls w @ [PutVectors batch]\<rparr>
      in case put_vectors env (length (vector_calls w)) batch of
           Inl e \<Rightarrow> (Inl e, w1)
         | Inr u \<Rightarrow> store_loop env vectors rest (stored_count + length batch) w1)"

definition store_document_vectors :: "env \<Rightarrow> string \<Rightarrow> string \<Rightarrow> string list \<Rightarrow> embedding list
    \<Rightarrow> trace \<Rightarrow> (exn + nat) \<times> trace" where
  "store_document_vectors env doc_id filename chunk_texts embeddings w =
     (let vectors = build_vectors doc_id filename chunk_texts embeddings
      in store_loop env vectors (range_step (length vectors) VECTORS_PER_BATCH) 0 w)"

definition delete_keys :: "string \<Rightarrow> int \<Rightarrow> string list" where
  \<comment> \<open>\<open>[f"{document_id}#{i}" for i in range(chunk_count)]\<close>\<close>
  "delete_keys doc_id chunk_count = map (vector_key doc_id) [0..<nat chunk_count]"

fun delete_loop :: "env \<Rightarrow> string list \<Rightarrow> nat list \<Rightarrow> nat \<Rightarrow> trace \<Rightarrow> (exn + nat) \<times> trace" where
  \<comment> \<open>\<open>for batch_start in range(0, len(keys), VECTORS_PER_BATCH)\<close> with its
      \<open>except ClientError\<close>\<close>
  "delete_loop env keys [] deleted_count w = (Inr deleted_count, w)"
| "delete_loop env keys (batch_start # rest) deleted_count w =
     (let batch = py_slice keys (int batch_start) (int (batch_start + VECTORS_PER_BATCH));
          w1 = w\<lparr>vector_calls := vector_calls w @ [DeleteVectors batch]\<rparr>
      in case delete_vectors env (length (vector_calls w)) batch of
           Inr u \<Rightarrow> delete_loop env keys rest (deleted_count + length batch) w1
         | Inl (ClientError code msg) \<Rightarrow>
             delete_loop env keys rest deleted_count
               (w1\<lparr>warnings := warnings w1 @ [(batch_start, ClientError code msg)]\<rparr>)
         | Inl (OtherError msg) \<Rightarrow> (Inl (OtherError msg), w1))"

definition delete_document_vectors :: "env \<Rightarrow> string \<Rightarrow> int \<Rightarrow> trace \<Rightarrow> (exn + nat) \<times> trace" where
  "delete_document_vectors env doc_id chunk_count w =
     (let keys = delete_keys doc_id chunk_count
      in delete_loop env keys (range_step (length keys) VECTORS_PER_BATCH) 0 w)"

subsection \<open>search_knowledge_base\<close>

fun str_value :: "py_value \<Rightarrow> string" where
  "str_value (Str s) = s"
| "str_value (Num n) = str_nat n"

definition dict_get :: "(string \<Rightarrow> py_value option) \<Rightarrow> string \<Rightarrow> py_value \<Rightarrow> py_value" where
  \<comment> \<open>\<open>d.get(k, default)\<close>\<close>
  "dict_get d k dflt = (case d k of None \<Rightarrow> dflt | Some v \<Rightarrow> v)"

definition join :: "string \<Rightarrow> string list \<Rightarrow> string" where
  \<comment> \<open>\<open>sep.join(xs)\<close>\<close>
  "join sep xs = (case xs of [] \<Rightarrow> [] | x # rest \<Rightarrow> x @ concat (map (\<lambda>y. sep @ y) rest))"

definition float_0_7 :: real where
  \<comment> \<open>the float literal \<open>0.7\<close>: the binary64 value nearest to 7/10\<close>
  "float_0_7 = 3152519739159347 / 4503599627370496"

definition similarity :: "env \<Rightarrow> returned_vector \<Rightarrow> real" where
  \<comment> \<open>\<open>distance = vector.get("distance", 0)\<close>; \<open>similarity = max(0, 1 - distance)\<close>. The
      default is the integer 0, so that \<open>1 - 0\<close> is exact; a distance of the service is a
      float and the difference is rounded.\<close>
  "similarity env v =
     (case distance v of
        None \<Rightarrow> max 0 (1 - 0)
      | Some d \<Rightarrow> max 0 (round64 env (1 - d)))"

definition quality :: "real \<Rightarrow> string" where
  \<comment> \<open>\<open>"High" if similarity >= 0.7 else "Medium" if similarity >= 0.5 else "Low"\<close>; the
      literal \<open>0.5\<close> is exact in binary64\<close>
  "quality s = (if s \<ge> float_0_7 then ''High'' else if s \<ge> 1 / 2 then ''Medium'' else ''Low'')"

definition format_result :: "env \<Rightarrow> nat \<times> returned_vector \<Rightarrow> string" where
  \<comment> \<open>the body of \<open>for i, vector in enumerate(vectors, 1)\<close>: the text appended to
      \<open>results\<close>\<close>
  "format_result env iv =
     (case iv of (i, v) \<Rightarrow>
        let md = (case returned_metadata v of None \<Rightarrow> (\<lambda>k. None) | Some m \<Rightarrow> m);
            chunk_text = dict_get md ''chunk_text'' (Str ''N/A'');
            filename = dict_get md ''document_filename'' (Str ''Unknown'');
            chunk_idx = dict_get md ''chunk_index'' (Str ''?'')
        in ''--- Result '' @ str_nat i @ '' ['' @ quality (similarity env v) @ '' relevance: ''
             @ format_2f env (similarity env v) @ ''] ---'' @ [CHR 0x0A]
           @ ''Source: '' @ str_value filename @ '' (chunk '' @ str_value chunk_idx @ '')''
             @ [CHR 0x0A]
           @ ''Content:'' @ [CHR 0x0A] @ str_value chunk_text @ [CHR 0x0A])"

definition knowledge_base_empty :: string where
  "knowledge_base_empty = ''The knowledge base is empty. No documents have been uploaded yet.''"

definition no_relevant_results :: string where
  "no_relevant_results =
     ''No relevant results found for your query. ''
     @ ''Try rephrasing your question or upload more documents.''"

definition search_knowledge_base :: "env \<Rightarrow> string \<Rightarrow> int \<Rightarrow> trace \<Rightarrow> (exn + string) \<times> trace" where
  "search_knowledge_base env query top_k w =
     (case generate_embedding_vector env query w of
        (Inl e, w1) \<Rightarrow> (Inr (''Error generating query embedding: '' @ str_exn e), w1)
      | (Inr query_embedding, w1) \<Rightarrow>
          (let w2 = w1\<lparr>vector_calls := vector_calls w1 @ [QueryVectors query_embedding top_k]\<rparr>
           in case query_vectors env (length (vector_calls w1)) query_embedding top_k of
                Inl (ClientError error_code msg) \<Rightarrow>
                  if error_code = ''ResourceNotFoundException''
                  then (Inr knowledge_base_empty, w2)
                  else (Inr (''Error searching knowledge base: '' @ msg), w2)
              | Inl (OtherError msg) \<Rightarrow> (Inl (OtherError msg), w2)
              | Inr vectors \<Rightarrow>
                  if vectors = [] then (Inr no_relevant_results, w2)
                  else (let results = map (format_result env) (enumerate 1 vectors);
                            header = ''Found '' @ str_nat (length results)
                                     @ '' relevant passages for: '' @ [CHR 0x22] @ query
                                     @ [CHR 0x22]
                                     @ [CHR 0x0A, CHR 0x0A]
                        in (Inr (header @ join [CHR 0x0A] results), w2))))"

subsection \<open>Batches, and the index the requests act on\<close>

definition batches_of :: "'a list \<Rightarrow> 'a list list" where
  \<comment> \<open>the slices \<open>xs[batch_start : batch_start + VECTORS_PER_BATCH]\<close> the two loops submit,
      in order\<close>
  "batches_of xs =
     map (\<lambda>batch_start. py_slice xs (int batch_start) (int (batch_start + VECTORS_PER_BATCH)))
       (range_step (length xs) VECTORS_PER_BATCH)"

fun apply_request :: "vectors_request \<Rightarrow> (string \<Rightarrow> vector option) \<Rightarrow> (string \<Rightarrow> vector option)" where
  \<comment> \<open>Modelled from the spec: the vector index service, which is not part of the repository.
      It stores one record per key; a put that succeeds writes its records under their keys,
      a delete that succeeds removes the records of its keys, a query changes nothing.\<close>
  "apply_request (PutVectors vs) idx = fold (\<lambda>v m. m(key v \<mapsto> v)) vs idx"
| "apply_request (DeleteVectors ks) idx = fold (\<lambda>k m. m(k := None)) ks idx"
| "apply_request (QueryVectors q k) idx = idx"

definition replay :: "vectors_request list \<Rightarrow> (string \<Rightarrow> vector option) \<Rightarrow> (string \<Rightarrow> vector option)" where
  \<comment> \<open>the index after the requests, all of them accepted, were served in order\<close>
  "replay reqs idx = fold apply_request reqs idx"

definition has_prefix :: "string \<Rightarrow> string \<Rightarrow> bool" where
  "has_prefix p s = (take (length p) s = p)"

definition succeeded :: "exn + unit \<Rightarrow> bool" where
  "succeeded r = (case r of Inl e \<Rightarrow> False | Inr u \<Rightarrow> True)"

definition failure_of :: "nat \<Rightarrow> exn + unit \<Rightarrow> (nat \<times> exn) list" where
  \<comment> \<open>the warning logged for the batch starting at \<open>batch_start\<close>, when its delete failed\<close>
  "failure_of batch_start r = (case r of Inl e \<Rightarrow> [(batch_start, e)] | Inr u \<Rightarrow> [])"

definition connection_lost :: env where
  \<comment> \<open>a world in which every call to the vector index fails before reaching the service,
      with an exception that is not a \<open>ClientError\<close>\<close>
  "connection_lost =
     \<lparr>vector_dimensions = 2,
      invoke_model = (\<lambda>n b. Inr [1, 0]),
      uniform01 = (\<lambda>n. 1 / 2),
      put_vectors = (\<lambda>n vs. Inl (OtherError ''Could not connect to the endpoint URL'')),
      delete_vectors = (\<lambda>n ks. Inl (OtherError ''Could not connect to the endpoint URL'')),
      query_vectors = (\<lambda>n q k. Inl (OtherError ''Could not connect to the endpoint URL'')),
      format_2f = (\<lambda>x. ''0.00''),
      round64 = (\<lambda>x. x)\<rparr>"

definition delete_refused :: env where
  \<comment> \<open>a world whose vector index answers every delete with a \<open>ClientError\<close>\<close>
  "delete_refused =
     \<lparr>vector_dimensions = 2,
      invoke_model = (\<lambda>n b. Inr [1, 0]),
      uniform01 = (\<lambda>n. 1 / 2),
      put_vectors = (\<lambda>n vs. Inr ()),
      delete_vectors = (\<lambda>n ks. Inl (ClientError ''InternalServerException'' ''try later'')),
      query_vectors = (\<lambda>n q k. Inl (ClientError ''ResourceNotFoundException'' ''no index'')),
      format_2f = (\<lambda>x. ''0.00''),
      round64 = (\<lambda>x. x)\<rparr>"

definition near_match :: returned_vector where
  "near_match =
     \<lparr>distance = Some (1 / 4),
      returned_metadata = Some [''chunk_text'' \<mapsto> Str ''alpha'',
                                ''document_filename'' \<mapsto> Str ''a.txt'',
                                ''chunk_index'' \<mapsto> Num 0]\<rparr>"

definition far_match :: returned_vector where
  "far_match = \<lparr>distance = Some (7 / 8), returned_metadata = None\<rparr>"

definition two_matches :: env where
  \<comment> \<open>a world whose vector index answers every query with a near and a far match\<close>
  "two_matches =
     \<lparr>vector_dimensions = 2,
      invoke_model = (\<lambda>n b. Inr [1, 0]),
      uniform01 = (\<lambda>n. 1 / 2),
      put_vectors = (\<lambda>n vs. Inr ()),
      delete_vectors = (\<lambda>n ks. Inr ()),
      query_vectors = (\<lambda>n q k. Inr [near_match, far_match]),
      format_2f = (\<lambda>x. if x = 3 / 4 then ''0.75'' else ''0.12''),
      round64 = (\<lambda>x. x)\<rparr>"

definition refused_then_lost :: env where
  \<comment> \<open>a world whose vector index answers the first call with a \<open>ClientError\<close>, after which
      the connection is lost\<close>
  "refused_then_lost =
     \<lparr>vector_dimensions = 2,
      invoke_model = (\<lambda>n b. Inr [1, 0]),
      uniform01 = (\<lambda>n. 1 / 2),
      put_vectors = (\<lambda>n vs. Inr ()),
      delete_vectors = (\<lambda>n ks. if n = 0
         then Inl (ClientError ''InternalServerException'' ''try later'')
         else Inl (OtherError ''Could not connect to the endpoint URL'')),
      query_vectors = (\<lambda>n q k. Inr []),
      format_2f = (\<lambda>x. ''0.00''),
      round64 = (\<lambda>x. x)\<rparr>"

section \<open>Evaluation of small ranges and numbers\<close>

lemma upt_six: "[0..<6] = [0, 1, 2, 3, 4, 5]"
  by code_simp

lemma str_nat_small: "str_nat 0 = ''0''" "str_nat (Suc 0) = ''1''" "str_nat 2 = ''2''"
  by code_simp+

section \<open>Lemmas on the string primitives and the break point\<close>

lemma rfind_from_range: "rfind_from s sub i = - 1 \<or> (0 \<le> rfind_from s sub i \<and> rfind_from s sub i \<le> int i)"
  by (induction i) auto

lemma rfind_from_occurs: "rfind_from s sub i \<noteq> - 1 \<Longrightarrow> occurs_at s sub (nat (rfind_from s sub i))"
  by (induction i) (auto split: if_splits simp del: of_nat_Suc)



lemma rfind_range: "rfind s sub = - 1 \<or> (0 \<le> rfind s sub \<and> rfind s sub + int (length sub) \<le> int (length s))"
proof (cases "rfind s sub = - 1")
  case True then show ?thesis by simp
next
  case False
  then have "occurs_at s sub (nat (rfind s sub))"
    unfolding rfind_def by (rule rfind_from_occurs)
  moreover have "0 \<le> rfind s sub" using False rfind_from_range [of s sub "length s"] by (simp add: rfind_def)
  ultimately show ?thesis by (simp add: occurs_at_def) linarith
qed




lemma py_slice_inner: "0 \<le> i \<Longrightarrow> i \<le> j \<Longrightarrow> j \<le> int (length xs) \<Longrightarrow>
  py_slice xs i j = take (nat (j - i)) (drop (nat i) xs)"
  by (auto simp: py_slice_def py_index_def Let_def min_def nat_diff_distrib)

lemma length_py_slice_inner: "0 \<le> i \<Longrightarrow> i \<le> j \<Longrightarrow> j \<le> int (length xs) \<Longrightarrow>
  int (length (py_slice xs i j)) = j - i"
  by (simp add: py_slice_inner)

lemma try_separators_range:
  "try_separators st ss seps = Some r \<Longrightarrow> \<forall>sep \<in> set seps. sep \<noteq> [] \<Longrightarrow>
   ss < r \<and> r \<le> ss + int (length st)"
proof (induction seps)
  case Nil then show ?case by simp
next
  case (Cons sep seps)
  show ?case
  proof (cases "rfind st sep = - 1")
    case True
    with Cons show ?thesis by simp
  next
    case False
    with Cons.prems have r: "r = ss + rfind st sep + int (length sep)" by (simp add: Let_def)
    from Cons.prems have "sep \<noteq> []" by simp
    then have "0 < int (length sep)" by simp
    with r rfind_range [of st sep] False show ?thesis by linarith
  qed
qed

lemma separators_nonempty: "\<forall>sep \<in> set separators. sep \<noteq> []"
  by (simp add: separators_def)

lemma find_break_point_range:
  assumes "0 \<le> start" "start < end'" "end' \<le> int (length text)"
  shows "start < find_break_point text start end' \<and> find_break_point text start end' \<le> end'"
proof -
  define ss where "ss = max (start + 1) (end' - 200)"
  define st where "st = py_slice text ss end'"
  have ss: "0 \<le> ss" "ss \<le> end'" "start < ss" using assms by (auto simp: ss_def)
  have len: "ss + int (length st) = end'"
    using length_py_slice_inner [OF ss(1) ss(2) assms(3)] by (simp add: st_def)
  show ?thesis
  proof (cases "try_separators st ss separators")
    case (Some r)
    from try_separators_range [OF Some separators_nonempty] len ss Some
    show ?thesis by (simp add: find_break_point_def Let_def ss_def [symmetric] st_def [symmetric])
  next
    case None
    have "rfind st '' '' = - 1 \<or> (0 \<le> rfind st '' '' \<and> rfind st '' '' + 1 \<le> int (length st))"
      using rfind_range [of st "'' ''"] by simp
    with None len ss assms show ?thesis
      by (auto simp add: find_break_point_def Let_def ss_def [symmetric] st_def [symmetric])
  qed
qed

section \<open>The chunking loop\<close>

lemma loop_body_cases:
  assumes "1 \<le> cs" "0 \<le> start" "start < int (length text)"
  obtains e where "start < e" "e \<le> int (length text)"
    "loop_body text cs co (start, i, chunks) =
       (if e - co \<le> start then e else e - co,
        if strip (py_slice text start e) \<noteq> []
        then (i + 1, chunks @ [\<lparr>text' = strip (py_slice text start e), index = i,
                                 start_char = start, end_char = e\<rparr>])
        else (i, chunks))"
proof -
  define end0 where "end0 = min (start + cs) (int (length text))"
  define e where "e = (if end0 < int (length text) then find_break_point text start end0 else end0)"
  have end0: "start < end0" "end0 \<le> int (length text)" using assms by (auto simp: end0_def)
  have "start < e \<and> e \<le> int (length text)"
  proof (cases "end0 < int (length text)")
    case True
    with find_break_point_range [OF assms(2) end0] end0 show ?thesis by (simp add: e_def)
  next
    case False
    with end0 show ?thesis by (simp add: e_def)
  qed
  moreover have "loop_body text cs co (start, i, chunks) =
       (if e - co \<le> start then e else e - co,
        if strip (py_slice text start e) \<noteq> []
        then (i + 1, chunks @ [\<lparr>text' = strip (py_slice text start e), index = i,
                                 start_char = start, end_char = e\<rparr>])
        else (i, chunks))"
    by (simp add: Let_def end0_def [symmetric] e_def [symmetric])
  ultimately show ?thesis using that by blast
qed

lemma loop_body_start:
  assumes "1 \<le> cs" "0 \<le> fst s" "fst s < int (length text)"
  shows "fst s < fst (loop_body text cs co s)"
proof -
  obtain start i chunks where s: "s = (start, i, chunks)" by (cases s)
  from assms s have a: "0 \<le> start" "start < int (length text)" by simp_all
  obtain e where e: "start < e"
    and eq: "loop_body text cs co (start, i, chunks) =
       (if e - co \<le> start then e else e - co,
        if strip (py_slice text start e) \<noteq> []
        then (i + 1, chunks @ [\<lparr>text' = strip (py_slice text start e), index = i,
                                 start_char = start, end_char = e\<rparr>])
        else (i, chunks))"
    by (rule loop_body_cases [OF assms(1) a])
  have "fst (loop_body text cs co (start, i, chunks)) = (if e - co \<le> start then e else e - co)"
    unfolding eq by simp
  with e show ?thesis unfolding s by simp
qed

lemma loop_body_inv:
  assumes "1 \<le> cs" "loop_inv text s" "fst s < int (length text)"
  shows "loop_inv text (loop_body text cs co s)"
proof -
  obtain start i chunks where s: "s = (start, i, chunks)" by (cases s)
  from assms s have a: "0 \<le> start" "start < int (length text)" by (simp_all add: loop_inv_def)
  from assms(2) s have inv: "i = int (length chunks)" "indexed_in_order chunks"
     "list_all (offsets_in_range text) chunks" "list_all (trimmed_slice text) chunks"
     "list_all (\<lambda>c. start_char c < start) chunks"
    by (simp_all add: loop_inv_def)
  obtain e where e: "start < e" "e \<le> int (length text)"
    and eq: "loop_body text cs co (start, i, chunks) =
       (if e - co \<le> start then e else e - co,
        if strip (py_slice text start e) \<noteq> []
        then (i + 1, chunks @ [\<lparr>text' = strip (py_slice text start e), index = i,
                                 start_char = start, end_char = e\<rparr>])
        else (i, chunks))"
    by (rule loop_body_cases [OF assms(1) a])
  define ns where "ns = (if e - co \<le> start then e else e - co)"
  have ns: "start < ns" using e by (simp add: ns_def)
  have mono: "list_all (\<lambda>c. start_char c < ns) chunks"
    using inv(5) ns by (auto simp: list_all_iff)
  show ?thesis
  proof (cases "strip (py_slice text start e) \<noteq> []")
    case False
    with inv mono a ns show ?thesis
      unfolding s eq by (simp add: loop_inv_def ns_def [symmetric])
  next
    case True
    define c where "c = \<lparr>text' = strip (py_slice text start e), index = i,
                                 start_char = start, end_char = e\<rparr>"
    have "indexed_in_order (chunks @ [c])"
      using inv(1,2,5) by (auto simp: indexed_in_order_def sorted_wrt_append c_def list_all_iff)
    moreover have "offsets_in_range text c" using a e by (simp add: offsets_in_range_def c_def)
    moreover have "trimmed_slice text c" using True by (simp add: trimmed_slice_def c_def)
    moreover have "start_char c < ns" using ns by (simp add: c_def)
    moreover have "loop_body text cs co (start, i, chunks) = (ns, i + 1, chunks @ [c])"
      unfolding eq ns_def c_def using True by simp
    ultimately show ?thesis using inv mono a ns
      unfolding s by (simp add: loop_inv_def)
  qed
qed

lemma chunk_loop_iterate:
  "\<not> fst ((loop_body text cs co ^^ k) s) < int (length text) \<Longrightarrow>
   (\<And>j. j < k \<Longrightarrow> fst ((loop_body text cs co ^^ j) s) < int (length text)) \<Longrightarrow>
   chunk_loop text cs co s = Some (snd (snd ((loop_body text cs co ^^ k) s)))"
proof (induction k arbitrary: s)
  case 0
  then show ?case by (subst chunk_loop.simps) simp
next
  case (Suc k)
  from Suc.prems(2) [of 0] have lt: "fst s < int (length text)" by simp
  have "chunk_loop text cs co (loop_body text cs co s) =
        Some (snd (snd ((loop_body text cs co ^^ k) (loop_body text cs co s))))"
  proof (rule Suc.IH)
    show "\<not> fst ((loop_body text cs co ^^ k) (loop_body text cs co s)) < int (length text)"
      using Suc.prems(1) by (simp add: funpow_swap1)
    fix j assume "j < k"
    then have "Suc j < Suc k" by simp
    from Suc.prems(2) [OF this]
    show "fst ((loop_body text cs co ^^ j) (loop_body text cs co s)) < int (length text)"
      by (simp add: funpow_swap1)
  qed
  with lt show ?case
    by (subst chunk_loop.simps) (simp add: funpow_swap1)
qed

lemma loop_iterations:
  assumes "1 \<le> cs"
  shows "0 \<le> fst s \<Longrightarrow> nat (int (length text) - fst s) \<le> n \<Longrightarrow>
    \<exists>k \<le> n. \<not> fst ((loop_body text cs co ^^ k) s) < int (length text) \<and>
      (\<forall>j < k. fst ((loop_body text cs co ^^ j) s) < int (length text) \<and>
                fst ((loop_body text cs co ^^ j) s) < fst ((loop_body text cs co ^^ Suc j) s))"
proof (induction n arbitrary: s)
  case 0
  then have "\<not> fst s < int (length text)" by simp
  then show ?case by (intro exI [of _ 0]) simp
next
  case (Suc n)
  show ?case
  proof (cases "fst s < int (length text)")
    case False
    then show ?thesis by (intro exI [of _ 0]) simp
  next
    case True
    let ?s' = "loop_body text cs co s"
    have inc: "fst s < fst ?s'" by (rule loop_body_start [OF assms Suc.prems(1) True])
    then have "0 \<le> fst ?s'" "nat (int (length text) - fst ?s') \<le> n"
      using Suc.prems by linarith+
    from Suc.IH [OF this] obtain k where k: "k \<le> n"
      "\<not> fst ((loop_body text cs co ^^ k) ?s') < int (length text)"
      "\<forall>j < k. fst ((loop_body text cs co ^^ j) ?s') < int (length text) \<and>
                fst ((loop_body text cs co ^^ j) ?s') < fst ((loop_body text cs co ^^ Suc j) ?s')"
      by blast
    have "\<forall>j < Suc k. fst ((loop_body text cs co ^^ j) s) < int (length text) \<and>
                fst ((loop_body text cs co ^^ j) s) < fst ((loop_body text cs co ^^ Suc j) s)"
    proof (intro allI impI)
      fix j assume j: "j < Suc k"
      show "fst ((loop_body text cs co ^^ j) s) < int (length text) \<and>
                fst ((loop_body text cs co ^^ j) s) < fst ((loop_body text cs co ^^ Suc j) s)"
      proof (cases j)
        case 0
        with True inc show ?thesis by simp
      next
        case (Suc j')
        with j have "j' < k" by simp
        with k(3) have "fst ((loop_body text cs co ^^ j') ?s') < int (length text) \<and>
                fst ((loop_body text cs co ^^ j') ?s') < fst ((loop_body text cs co ^^ Suc j') ?s')"
          by blast
        then show ?thesis unfolding Suc by (simp only: funpow_Suc_right o_apply)
      qed
    qed
    moreover have "\<not> fst ((loop_body text cs co ^^ Suc k) s) < int (length text)"
      using k(2) by (simp add: funpow_swap1)
    ultimately show ?thesis using k(1) by (intro exI [of _ "Suc k"]) simp
  qed
qed

lemma loop_inv_iterate:
  assumes "1 \<le> cs" "loop_inv text s"
  shows "(\<And>j. j < k \<Longrightarrow> fst ((loop_body text cs co ^^ j) s) < int (length text)) \<Longrightarrow>
    loop_inv text ((loop_body text cs co ^^ k) s)"
proof (induction k)
  case 0
  with assms show ?case by simp
next
  case (Suc k)
  have "loop_inv text ((loop_body text cs co ^^ k) s)"
    by (rule Suc.IH) (simp add: Suc.prems)
  moreover have "fst ((loop_body text cs co ^^ k) s) < int (length text)"
    by (rule Suc.prems) simp
  ultimately show ?case using loop_body_inv [OF assms(1)] by simp
qed

lemma chunk_loop_runs:
  assumes "1 \<le> cs"
  shows "\<exists>k \<le> length text.
     \<not> fst ((loop_body text cs co ^^ k) (0, 0, [])) < int (length text) \<and>
     (\<forall>j < k. fst ((loop_body text cs co ^^ j) (0, 0, [])) < int (length text) \<and>
        fst ((loop_body text cs co ^^ j) (0, 0, [])) < fst ((loop_body text cs co ^^ Suc j) (0, 0, []))) \<and>
     chunk_loop text cs co (0, 0, []) = Some (snd (snd ((loop_body text cs co ^^ k) (0, 0, [])))) \<and>
     loop_inv text ((loop_body text cs co ^^ k) (0, 0, []))"
proof -
  let ?s = "(0, 0, []) :: int \<times> int \<times> TextChunk list"
  have "0 \<le> fst ?s" "nat (int (length text) - fst ?s) \<le> length text" by simp_all
  from loop_iterations [OF assms this, of co] obtain k where k: "k \<le> length text"
    "\<not> fst ((loop_body text cs co ^^ k) ?s) < int (length text)"
    "\<forall>j < k. fst ((loop_body text cs co ^^ j) ?s) < int (length text) \<and>
        fst ((loop_body text cs co ^^ j) ?s) < fst ((loop_body text cs co ^^ Suc j) ?s)"
    by blast
  have "chunk_loop text cs co ?s = Some (snd (snd ((loop_body text cs co ^^ k) ?s)))"
    by (rule chunk_loop_iterate [OF k(2)]) (simp add: k(3))
  moreover have "loop_inv text ?s"
    by (simp add: loop_inv_def indexed_in_order_def)
  then have "loop_inv text ((loop_body text cs co ^^ k) ?s)"
    by (rule loop_inv_iterate [OF assms]) (simp add: k(3))
  ultimately show ?thesis using k by blast
qed

text \<open>
  C1. Segmentation terminates for every text whenever \<open>chunk_size \<ge> 1\<close> and
  \<open>chunk_overlap \<ge> 0\<close>, also when the overlap is not below the chunk size: the loop
  leaves after some \<open>k \<le> len(text)\<close> iterations, the window start strictly increases
  on each of them, and \<open>chunk_text\<close> returns a chunk list.
\<close>

theorem chunk_text_terminates:
  assumes "1 \<le> chunk_size" "0 \<le> chunk_overlap"
  shows "(\<exists>k \<le> length text.
     \<not> fst ((loop_body text chunk_size chunk_overlap ^^ k) (0, 0, [])) < int (length text) \<and>
     (\<forall>j < k.
        fst ((loop_body text chunk_size chunk_overlap ^^ j) (0, 0, [])) < int (length text) \<and>
        fst ((loop_body text chunk_size chunk_overlap ^^ j) (0, 0, []))
          < fst ((loop_body text chunk_size chunk_overlap ^^ Suc j) (0, 0, []))) \<and>
     chunk_loop text chunk_size chunk_overlap (0, 0, [])
       = Some (snd (snd ((loop_body text chunk_size chunk_overlap ^^ k) (0, 0, []))))) \<and>
   (\<exists>chunks. chunk_text text chunk_size chunk_overlap = Some chunks)"
proof -
  from chunk_loop_runs [OF assms(1), of "text" chunk_overlap] obtain k where k: "k \<le> length text"
     "\<not> fst ((loop_body text chunk_size chunk_overlap ^^ k) (0, 0, [])) < int (length text)"
     "\<forall>j < k.
        fst ((loop_body text chunk_size chunk_overlap ^^ j) (0, 0, [])) < int (length text) \<and>
        fst ((loop_body text chunk_size chunk_overlap ^^ j) (0, 0, []))
          < fst ((loop_body text chunk_size chunk_overlap ^^ Suc j) (0, 0, []))"
     "chunk_loop text chunk_size chunk_overlap (0, 0, [])
       = Some (snd (snd ((loop_body text chunk_size chunk_overlap ^^ k) (0, 0, []))))"
    by blast
  from k(4) have "\<exists>chunks. chunk_text text chunk_size chunk_overlap = Some chunks"
    by (simp add: chunk_text_def)
  with k show ?thesis by blast
qed

theorem chunk_text_terminates_witness:
  "(1::int) \<le> 3 \<and> (0::int) \<le> 7 \<and>
   chunk_text ''abcdefghijk'' 3 7 =
     Some [\<lparr>text' = ''abc'', index = 0, start_char = 0, end_char = 3\<rparr>,
           \<lparr>text' = ''def'', index = 1, start_char = 3, end_char = 6\<rparr>,
           \<lparr>text' = ''ghi'', index = 2, start_char = 6, end_char = 9\<rparr>,
           \<lparr>text' = ''jk'', index = 3, start_char = 9, end_char = 11\<rparr>] \<and>
   (\<exists>chunks. chunk_text ''abcdefghijk'' 3 7 = Some chunks)"
proof -
  have h: "(1::int) \<le> 3" "(0::int) \<le> 7" by simp_all
  have "chunk_text ''abcdefghijk'' 3 7 =
     Some [\<lparr>text' = ''abc'', index = 0, start_char = 0, end_char = 3\<rparr>,
           \<lparr>text' = ''def'', index = 1, start_char = 3, end_char = 6\<rparr>,
           \<lparr>text' = ''ghi'', index = 2, start_char = 6, end_char = 9\<rparr>,
           \<lparr>text' = ''jk'', index = 3, start_char = 9, end_char = 11\<rparr>]"
    by code_simp
  with h chunk_text_terminates [OF h, of "''abcdefghijk''"] show ?thesis by blast
qed

text \<open>
  C2, as stated, fails on a text no longer than the chunk size: it is returned whole,
  without the trim.
\<close>

theorem chunk_text_trim_counterexample:
  "(0::int) \<le> 3 \<and> (3::int) < 10 \<and>
   chunk_text '' a'' 10 3 = Some [\<lparr>text' = '' a'', index = 0, start_char = 0, end_char = 2\<rparr>] \<and>
   \<not> list_all (trimmed_slice '' a'')
        [\<lparr>text' = '' a'', index = 0, start_char = 0, end_char = 2\<rparr>]"
  by code_simp

text \<open>
  C2, amended. For \<open>0 \<le> chunk_overlap < chunk_size\<close> segmentation returns a chunk list
  whose indices are \<open>0..n-1\<close> in emission order, whose start offsets strictly increase and
  whose chunks all satisfy \<open>0 \<le> start_char < end_char \<le> len(text)\<close>. When the text is longer
  than \<open>chunk_size\<close>, every chunk's text is the trim of \<open>text[start_char:end_char]\<close> and is
  not empty; a non-empty text no longer than \<open>chunk_size\<close> is returned as one chunk holding
  the whole text, untrimmed.
\<close>

theorem chunk_text_well_formed:
  assumes "0 \<le> chunk_overlap" "chunk_overlap < chunk_size"
  shows "\<exists>chunks. chunk_text text chunk_size chunk_overlap = Some chunks \<and>
     indexed_in_order chunks \<and> list_all (offsets_in_range text) chunks \<and>
     (if chunk_size < int (length text) then list_all (trimmed_slice text) chunks
      else if text = [] then chunks = []
      else chunks = [\<lparr>text' = text, index = 0, start_char = 0, end_char = int (length text)\<rparr>])"
proof (cases "chunk_size < int (length text)")
  case True
  from assms have cs: "1 \<le> chunk_size" by simp
  from chunk_loop_runs [OF cs, of "text" chunk_overlap] obtain k where
    run: "chunk_loop text chunk_size chunk_overlap (0, 0, [])
       = Some (snd (snd ((loop_body text chunk_size chunk_overlap ^^ k) (0, 0, []))))"
    and inv: "loop_inv text ((loop_body text chunk_size chunk_overlap ^^ k) (0, 0, []))"
    by blast
  obtain st i chunks where
    fin: "(loop_body text chunk_size chunk_overlap ^^ k) (0, 0, []) = (st, i, chunks)"
    by (cases "(loop_body text chunk_size chunk_overlap ^^ k) (0, 0, [])")
  from True assms have "text \<noteq> []" by auto
  with True run fin have "chunk_text text chunk_size chunk_overlap = Some chunks"
    by (simp add: chunk_text_def)
  moreover from inv fin have "indexed_in_order chunks" "list_all (offsets_in_range text) chunks"
    "list_all (trimmed_slice text) chunks"
    by (simp_all add: loop_inv_def)
  ultimately show ?thesis using True by simp
next
  case False
  show ?thesis
  proof (cases "text = []")
    case True
    then show ?thesis using False by (simp add: chunk_text_def indexed_in_order_def)
  next
    case ne: False
    with False show ?thesis
      by (simp add: chunk_text_def indexed_in_order_def offsets_in_range_def)
  qed
qed

theorem chunk_text_well_formed_witness:
  "(0::int) \<le> 3 \<and> (3::int) < 10 \<and>
   (\<exists>chunks. chunk_text ''abcdefghijk'' 10 3 = Some chunks \<and>
     indexed_in_order chunks \<and> list_all (offsets_in_range ''abcdefghijk'') chunks \<and>
     list_all (trimmed_slice ''abcdefghijk'') chunks) \<and>
   chunk_text ''abcdefghijk'' 10 3 =
     Some [\<lparr>text' = ''abcdefghij'', index = 0, start_char = 0, end_char = 10\<rparr>,
           \<lparr>text' = ''hijk'', index = 1, start_char = 7, end_char = 11\<rparr>,
           \<lparr>text' = ''ijk'', index = 2, start_char = 8, end_char = 11\<rparr>]"
proof -
  have h: "(0::int) \<le> 3" "(3::int) < 10" by simp_all
  have "chunk_text ''abcdefghijk'' 10 3 =
     Some [\<lparr>text' = ''abcdefghij'', index = 0, start_char = 0, end_char = 10\<rparr>,
           \<lparr>text' = ''hijk'', index = 1, start_char = 7, end_char = 11\<rparr>,
           \<lparr>text' = ''ijk'', index = 2, start_char = 8, end_char = 11\<rparr>]"
    by code_simp
  with h chunk_text_well_formed [OF h, of "''abcdefghijk''"] show ?thesis by simp
qed

section \<open>The choice of the break point\<close>









section \<open>Retries of the embedding call\<close>

lemma py_slice_take: "0 \<le> j \<Longrightarrow> py_slice xs 0 j = take (nat j) xs"
  by (auto simp: py_slice_def py_index_def Let_def min_def)

lemma attempt_loop_run:
  assumes "a + k \<le> MAX_RETRIES"
    and "\<And>j. j < k \<Longrightarrow> rate_limited (invoke_model env (length (calls w) + j) b)"
    and "a + k < MAX_RETRIES \<Longrightarrow> \<not> rate_limited (invoke_model env (length (calls w) + k) b)"
  shows "attempt_loop env b [a..<MAX_RETRIES + 1] w =
     (outcome (invoke_model env (length (calls w) + k) b),
      w\<lparr>calls := calls w @ replicate (Suc k) b, draws := draws w + k,
        sleeps := sleeps w @ map (\<lambda>j. backoff env (draws w + j) (a + j)) [0..<k]\<rparr>)"
  using assms
proof (induction k arbitrary: a w)
  case 0
  have up: "[a..<MAX_RETRIES + 1] = a # [Suc a..<MAX_RETRIES + 1]"
    using 0(1) by (simp add: upt_conv_Cons)
  show ?case
  proof (cases "invoke_model env (length (calls w)) b")
    case (Inr v)
    then show ?thesis unfolding up by (simp add: outcome_def)
  next
    case (Inl e)
    show ?thesis
    proof (cases e)
      case (OtherError m)
      with Inl show ?thesis unfolding up by (simp add: outcome_def)
    next
      case (ClientError c m)
      have "\<not> (rate_limit_code c \<and> a < MAX_RETRIES)"
        using 0(3) Inl ClientError by (auto simp: rate_limited_def)
      with Inl ClientError show ?thesis unfolding up by (auto simp: outcome_def)
    qed
  qed
next
  case (Suc k)
  have a: "a < MAX_RETRIES" using Suc.prems(1) by simp
  then have up: "[a..<MAX_RETRIES + 1] = a # [Suc a..<MAX_RETRIES + 1]"
    by (simp add: upt_conv_Cons)
  from Suc.prems(2) [of 0] obtain c m where
    r0: "invoke_model env (length (calls w)) b = Inl (ClientError c m)" "rate_limit_code c"
    by (auto simp: rate_limited_def split: sum.splits exn.splits)
  define w2 where "w2 = w\<lparr>calls := calls w @ [b], draws := draws w + 1,
     sleeps := sleeps w @ [backoff env (draws w) a]\<rparr>"
  have step: "attempt_loop env b [a..<MAX_RETRIES + 1] w = attempt_loop env b [Suc a..<MAX_RETRIES + 1] w2"
    unfolding up using r0 a by (simp add: w2_def backoff_def Let_def)
  have "attempt_loop env b [Suc a..<MAX_RETRIES + 1] w2 =
     (outcome (invoke_model env (length (calls w2) + k) b),
      w2\<lparr>calls := calls w2 @ replicate (Suc k) b, draws := draws w2 + k,
        sleeps := sleeps w2 @ map (\<lambda>j. backoff env (draws w2 + j) (Suc a + j)) [0..<k]\<rparr>)"
  proof (rule Suc.IH)
    show "Suc a + k \<le> MAX_RETRIES" using Suc.prems(1) by simp
    fix j assume "j < k"
    then have "Suc j < Suc k" by simp
    from Suc.prems(2) [OF this]
    show "rate_limited (invoke_model env (length (calls w2) + j) b)" by (simp add: w2_def)
  next
    assume "Suc a + k < MAX_RETRIES"
    then have "a + Suc k < MAX_RETRIES" by simp
    from Suc.prems(3) [OF this]
    show "\<not> rate_limited (invoke_model env (length (calls w2) + k) b)" by (simp add: w2_def)
  qed
  moreover have "map (\<lambda>j. backoff env (draws w + j) (a + j)) [0..<Suc k] =
      backoff env (draws w) a # map (\<lambda>j. backoff env (Suc (draws w) + j) (Suc a + j)) [0..<k]"
    by (simp add: upt_rec [of 0 "Suc k"] map_Suc_upt [symmetric] del: upt_Suc)
  ultimately show ?case unfolding step
    by (simp add: w2_def replicate_app_Cons_same del: upt_Suc)
qed

lemma retry_count_exists:
  fixes P :: "nat \<Rightarrow> bool"
  shows "\<exists>k \<le> n. (\<forall>j < k. P j) \<and> (k < n \<longrightarrow> \<not> P k)"
proof (induction n)
  case 0
  show ?case by simp
next
  case (Suc n)
  then obtain k where k: "k \<le> n" "\<forall>j < k. P j" "k < n \<longrightarrow> \<not> P k" by blast
  show ?case
  proof (cases "k < n \<or> \<not> P n")
    case True
    with k show ?thesis by (intro exI [of _ k]) auto
  next
    case False
    with k have "k = n" "P n" by auto
    with k show ?thesis by (intro exI [of _ "Suc n"]) (auto simp: less_Suc_eq)
  qed
qed

text \<open>
  C4. \<open>generate_embedding_vector\<close> sends the first 30000 characters of the text. It makes
  \<open>k + 1 \<le> 6\<close> calls: the first \<open>k \<le> 5\<close> answers are rate-limit failures, each followed by
  a wait of \<open>min(2^attempt + jitter, 30)\<close> seconds, and the answer to call \<open>k + 1\<close> ends
  the run: its embedding is returned or its exception raised. That answer is not a
  rate-limit failure unless \<open>k = 5\<close>, when the sixth failure is raised. With the jitter in
  \<open>[0, 1)\<close> each wait lies in \<open>[2^attempt, 2^attempt + 1)\<close> and below the cap.
\<close>

theorem generate_embedding_vector_retry:
  "\<exists>k \<le> 5.
     (let b = \<lparr>inputText = take 30000 text, dimensions = vector_dimensions env,
                normalize = True\<rparr>;
          answer = (\<lambda>j. invoke_model env (length (calls w) + j) b);
          delay = (\<lambda>j. min (2 ^ j + uniform01 env (draws w + j)) 30)
      in (\<forall>j < k. rate_limited (answer j)) \<and>
         (k < 5 \<longrightarrow> \<not> rate_limited (answer k)) \<and>
         generate_embedding_vector env text w =
           (outcome (answer k),
            w\<lparr>calls := calls w @ replicate (Suc k) b, draws := draws w + k,
              sleeps := sleeps w @ map delay [0..<k]\<rparr>) \<and>
         ((\<forall>n. 0 \<le> uniform01 env n \<and> uniform01 env n < 1) \<longrightarrow>
            (\<forall>j < k. 2 ^ j \<le> delay j \<and> delay j < 2 ^ j + 1 \<and> delay j \<le> 30)))"
proof -
  define b where "b = \<lparr>inputText = take 30000 text, dimensions = vector_dimensions env,
                normalize = True\<rparr>"
  define answer where "answer = (\<lambda>j. invoke_model env (length (calls w) + j) b)"
  define delay where "delay = (\<lambda>j. min (2 ^ j + uniform01 env (draws w + j)) (30::real))"
  obtain k where k: "k \<le> MAX_RETRIES" "\<forall>j < k. rate_limited (answer j)"
    "k < MAX_RETRIES \<longrightarrow> \<not> rate_limited (answer k)"
    using retry_count_exists [of MAX_RETRIES "\<lambda>j. rate_limited (answer j)"] by blast
  have body: "(if length text > EMBEDDING_INPUT_LIMIT_CHARS
                  then py_slice text 0 (int EMBEDDING_INPUT_LIMIT_CHARS) else text) = take 30000 text"
    by (simp add: py_slice_take EMBEDDING_INPUT_LIMIT_CHARS_def)
  have "attempt_loop env b [0..<MAX_RETRIES + 1] w =
     (outcome (invoke_model env (length (calls w) + k) b),
      w\<lparr>calls := calls w @ replicate (Suc k) b, draws := draws w + k,
        sleeps := sleeps w @ map (\<lambda>j. backoff env (draws w + j) (0 + j)) [0..<k]\<rparr>)"
    by (rule attempt_loop_run) (use k in \<open>simp_all add: answer_def\<close>)
  then have run: "generate_embedding_vector env text w =
           (outcome (answer k),
            w\<lparr>calls := calls w @ replicate (Suc k) b, draws := draws w + k,
              sleeps := sleeps w @ map delay [0..<k]\<rparr>)"
    unfolding generate_embedding_vector_def body Let_def b_def [symmetric]
    by (simp add: answer_def delay_def backoff_def)
  have bounds: "2 ^ j \<le> delay j \<and> delay j < 2 ^ j + 1 \<and> delay j \<le> 30"
    if u: "\<forall>n. 0 \<le> uniform01 env n \<and> uniform01 env n < 1" and j: "j < k" for j
  proof -
    from j k(1) have "j \<le> 4" by (simp add: MAX_RETRIES_def)
    then have "(2::real) ^ j \<le> 2 ^ 4" by (intro power_increasing) simp_all
    with u [rule_format, of "draws w + j"] show ?thesis by (simp add: delay_def)
  qed
  from k run bounds have main: "(\<forall>j < k. rate_limited (answer j)) \<and>
         (k < 5 \<longrightarrow> \<not> rate_limited (answer k)) \<and>
         generate_embedding_vector env text w =
           (outcome (answer k),
            w\<lparr>calls := calls w @ replicate (Suc k) b, draws := draws w + k,
              sleeps := sleeps w @ map delay [0..<k]\<rparr>) \<and>
         ((\<forall>n. 0 \<le> uniform01 env n \<and> uniform01 env n < 1) \<longrightarrow>
            (\<forall>j < k. 2 ^ j \<le> delay j \<and> delay j < 2 ^ j + 1 \<and> delay j \<le> 30))"
    by (simp add: MAX_RETRIES_def)
  from k(1) have k5: "k \<le> 5" by (simp add: MAX_RETRIES_def)
  show ?thesis
    unfolding Let_def b_def [symmetric] delay_def [symmetric]
    by (rule exI [of _ k], rule conjI [OF k5 main [unfolded answer_def]])
qed

theorem generate_embedding_vector_retry_witness:
  "generate_embedding_vector throttled_twice ''hello'' empty_trace =
     (Inr (Some [1, 0]),
      \<lparr>calls = [\<lparr>inputText = ''hello'', dimensions = 2, normalize = True\<rparr>,
                \<lparr>inputText = ''hello'', dimensions = 2, normalize = True\<rparr>,
                \<lparr>inputText = ''hello'', dimensions = 2, normalize = True\<rparr>],
       draws = 2, sleeps = [3 / 2, 5 / 2], vector_calls = [], warnings = []\<rparr>) \<and>
   (\<exists>k \<le> 5.
     (let b = \<lparr>inputText = take 30000 ''hello'', dimensions = vector_dimensions throttled_twice,
                normalize = True\<rparr>;
          answer = (\<lambda>j. invoke_model throttled_twice (length (calls empty_trace) + j) b);
          delay = (\<lambda>j. min (2 ^ j + uniform01 throttled_twice (draws empty_trace + j)) 30)
      in (\<forall>j < k. rate_limited (answer j)) \<and>
         (k < 5 \<longrightarrow> \<not> rate_limited (answer k)) \<and>
         generate_embedding_vector throttled_twice ''hello'' empty_trace =
           (outcome (answer k),
            empty_trace\<lparr>calls := calls empty_trace @ replicate (Suc k) b,
              draws := draws empty_trace + k,
              sleeps := sleeps empty_trace @ map delay [0..<k]\<rparr>) \<and>
         ((\<forall>n. 0 \<le> uniform01 throttled_twice n \<and> uniform01 throttled_twice n < 1) \<longrightarrow>
            (\<forall>j < k. 2 ^ j \<le> delay j \<and> delay j < 2 ^ j + 1 \<and> delay j \<le> 30))))"
proof -
  have "generate_embedding_vector throttled_twice ''hello'' empty_trace =
     (Inr (Some [1, 0]),
      \<lparr>calls = [\<lparr>inputText = ''hello'', dimensions = 2, normalize = True\<rparr>,
                \<lparr>inputText = ''hello'', dimensions = 2, normalize = True\<rparr>,
                \<lparr>inputText = ''hello'', dimensions = 2, normalize = True\<rparr>],
       draws = 2, sleeps = [3 / 2, 5 / 2], vector_calls = [], warnings = []\<rparr>)"
    by (simp add: generate_embedding_vector_def EMBEDDING_INPUT_LIMIT_CHARS_def MAX_RETRIES_def
        throttled_twice_def empty_trace_def upt_six rate_limit_code_def Let_def)
  with generate_embedding_vector_retry [of "''hello''" throttled_twice empty_trace]
  show ?thesis by (rule_tac conjI)
qed

section \<open>Batch embedding\<close>

lemma batch_loop_append:
  "batch_loop env (xs @ ys) acc w =
     (case batch_loop env xs acc w of
        (Inl e, w1) \<Rightarrow> (Inl e, w1)
      | (Inr acc', w1) \<Rightarrow> batch_loop env ys acc' w1)"
proof (induction xs arbitrary: acc w)
  case Nil
  show ?case by simp
next
  case (Cons x xs)
  obtain i t where x: "x = (i, t)" by (cases x)
  show ?case unfolding x by (simp add: Cons.IH split: prod.splits sum.splits)
qed

lemma batch_loop_length:
  "batch_loop env xs acc w = (Inr vs, w') \<Longrightarrow> \<exists>new. vs = acc @ new \<and> length new = length xs"
proof (induction xs arbitrary: acc w)
  case Nil
  then show ?case by simp
next
  case (Cons x xs)
  obtain i t where x: "x = (i, t)" by (cases x)
  from Cons.prems obtain v w1 w2 where
    "batch_loop env xs (acc @ [v]) w2 = (Inr vs, w')"
    unfolding x by (auto split: prod.splits sum.splits)
  from Cons.IH [OF this] obtain new where "vs = (acc @ [v]) @ new" "length new = length xs"
    by blast
  then show ?case by (intro exI [of _ "v # new"]) simp
qed

lemma batch_length:
  "generate_embeddings_batch env texts w = (Inr vs, w') \<Longrightarrow> length vs = length texts"
  unfolding generate_embeddings_batch_def by (drule batch_loop_length) auto

lemma batch_snoc:
  "generate_embeddings_batch env (texts @ [t]) w =
     (case generate_embeddings_batch env texts w of
        (Inl e, w1) \<Rightarrow> (Inl e, w1)
      | (Inr vs, w1) \<Rightarrow>
          (case generate_embedding_vector env t w1 of
             (Inl e, w2) \<Rightarrow> (Inl e, w2)
           | (Inr v, w2) \<Rightarrow>
               (Inr (vs @ [v]),
                if length texts > 0 \<and> length texts mod 20 = 0
                then w2\<lparr>sleeps := sleeps w2 @ [1 / 10]\<rparr> else w2)))"
  unfolding generate_embeddings_batch_def
  by (simp add: enumerate_append_eq batch_loop_append split: prod.splits sum.splits)

lemma batch_split:
  assumes "k < length texts"
  shows "generate_embeddings_batch env texts w =
     (case generate_embeddings_batch env (take k texts) w of
        (Inl e, w1) \<Rightarrow> (Inl e, w1)
      | (Inr vs, w1) \<Rightarrow>
          (case generate_embedding_vector env (texts ! k) w1 of
             (Inl e, w2) \<Rightarrow> (Inl e, w2)
           | (Inr v, w2) \<Rightarrow>
               batch_loop env (enumerate (Suc k) (drop (Suc k) texts)) (vs @ [v])
                 (if k > 0 \<and> k mod 20 = 0 then w2\<lparr>sleeps := sleeps w2 @ [1 / 10]\<rparr> else w2)))"
proof -
  have "texts = take k texts @ texts ! k # drop (Suc k) texts"
    using assms by (simp add: id_take_nth_drop)
  then have "enumerate 0 texts =
     enumerate 0 (take k texts) @ (k, texts ! k) # enumerate (Suc k) (drop (Suc k) texts)"
    using assms by (metis enumerate_append_eq enumerate_simps(2) length_take min.absorb2
        less_imp_le add_0)
  then show ?thesis
    unfolding generate_embeddings_batch_def
    by (simp add: batch_loop_append split: prod.splits sum.splits)
qed

lemma batch_prefix_ok:
  assumes "generate_embeddings_batch env texts w = (Inr vs, w')" "k < length texts"
  shows "\<exists>wk. generate_embeddings_batch env (take k texts) w = (Inr (take k vs), wk) \<and>
     fst (generate_embedding_vector env (texts ! k) wk) = Inr (vs ! k)"
proof -
  from assms(1) batch_split [OF assms(2), of env w] obtain pre wk v w2 where
    pre: "generate_embeddings_batch env (take k texts) w = (Inr pre, wk)"
    and v: "generate_embedding_vector env (texts ! k) wk = (Inr v, w2)"
    and rest: "batch_loop env (enumerate (Suc k) (drop (Suc k) texts)) (pre @ [v])
                 (if k > 0 \<and> k mod 20 = 0 then w2\<lparr>sleeps := sleeps w2 @ [1 / 10]\<rparr> else w2)
               = (Inr vs, w')"
    by (auto split: prod.splits sum.splits)
  from batch_length [OF pre] assms(2) have len: "length pre = k" by simp
  from batch_loop_length [OF rest] obtain new where "vs = (pre @ [v]) @ new" by blast
  with len have "take k vs = pre" "vs ! k = v" by (simp_all add: nth_append)
  with pre v show ?thesis by simp
qed

lemma batch_fail_fast:
  assumes "k < length texts"
    "generate_embeddings_batch env (take k texts) w = (Inr vs, wk)"
    "generate_embedding_vector env (texts ! k) wk = (Inl e, w1)"
  shows "generate_embeddings_batch env texts w = (Inl e, w1)"
  using assms(2,3) by (simp add: batch_split [OF assms(1)])

lemma batch_result_cases:
  "(\<exists>vs w'. generate_embeddings_batch env texts w = (Inr vs, w')) \<or>
   (\<exists>k < length texts. \<exists>vs wk e w1.
      generate_embeddings_batch env (take k texts) w = (Inr vs, wk) \<and>
      generate_embedding_vector env (texts ! k) wk = (Inl e, w1) \<and>
      generate_embeddings_batch env texts w = (Inl e, w1))"
proof (induction texts rule: rev_induct)
  case Nil
  show ?case by (simp add: generate_embeddings_batch_def)
next
  case (snoc t texts)
  from snoc.IH show ?case
  proof
    assume "\<exists>vs w'. generate_embeddings_batch env texts w = (Inr vs, w')"
    then obtain vs wk where ok: "generate_embeddings_batch env texts w = (Inr vs, wk)" by blast
    obtain r w2 where g: "generate_embedding_vector env t wk = (r, w2)"
      by (cases "generate_embedding_vector env t wk")
    show ?thesis
    proof (cases r)
      case (Inr v)
      with ok g show ?thesis by (simp add: batch_snoc)
    next
      case (Inl e)
      with ok g have "generate_embeddings_batch env (texts @ [t]) w = (Inl e, w2)"
        by (simp add: batch_snoc)
      with ok g Inl show ?thesis
        by (intro disjI2 exI [of _ "length texts"]) simp
    qed
  next
    assume "\<exists>k < length texts. \<exists>vs wk e w1.
      generate_embeddings_batch env (take k texts) w = (Inr vs, wk) \<and>
      generate_embedding_vector env (texts ! k) wk = (Inl e, w1) \<and>
      generate_embeddings_batch env texts w = (Inl e, w1)"
    then obtain k vs wk e w1 where k: "k < length texts"
      "generate_embeddings_batch env (take k texts) w = (Inr vs, wk)"
      "generate_embedding_vector env (texts ! k) wk = (Inl e, w1)"
      "generate_embeddings_batch env texts w = (Inl e, w1)"
      by blast
    from k(4) have "generate_embeddings_batch env (texts @ [t]) w = (Inl e, w1)"
      by (simp add: batch_snoc)
    with k show ?thesis
      by (intro disjI2 exI [of _ k]) (simp add: nth_append)
  qed
qed

lemma attempt_loop_not_None:
  "fst (attempt_loop env b [a..<MAX_RETRIES + 1] w) \<noteq> Inr None" if "a \<le> MAX_RETRIES"
proof -
  obtain k where k: "k \<le> MAX_RETRIES - a"
    "\<forall>j < k. rate_limited (invoke_model env (length (calls w) + j) b)"
    "k < MAX_RETRIES - a \<longrightarrow> \<not> rate_limited (invoke_model env (length (calls w) + k) b)"
    using retry_count_exists [of "MAX_RETRIES - a"
        "\<lambda>j. rate_limited (invoke_model env (length (calls w) + j) b)"] by blast
  have "attempt_loop env b [a..<MAX_RETRIES + 1] w =
     (outcome (invoke_model env (length (calls w) + k) b),
      w\<lparr>calls := calls w @ replicate (Suc k) b, draws := draws w + k,
        sleeps := sleeps w @ map (\<lambda>j. backoff env (draws w + j) (a + j)) [0..<k]\<rparr>)"
    by (rule attempt_loop_run) (use k that in auto)
  then show ?thesis by (simp add: outcome_def split: sum.splits)
qed

lemma generate_embedding_vector_not_None:
  "fst (generate_embedding_vector env t w) \<noteq> Inr None"
  unfolding generate_embedding_vector_def Let_def
  by (rule attempt_loop_not_None) simp

text \<open>
  C5. \<open>generate_embeddings_batch\<close> embeds the texts one after another in input order: the
  text at position \<open>k\<close> is embedded in the state the batch over the first \<open>k\<close> texts leaves.
  When it returns, it returns one embedding per text, at the same position. When the embed
  call of some text raises, after its own retries, the batch raises that exception and no
  list is returned. One of the two happens.
\<close>

theorem generate_embeddings_batch_all_or_nothing:
  "(\<forall>vs w'. generate_embeddings_batch env texts w = (Inr vs, w') \<longrightarrow>
      length vs = length texts \<and>
      (\<forall>k < length texts. vs ! k \<noteq> None \<and>
         (\<exists>wk. generate_embeddings_batch env (take k texts) w = (Inr (take k vs), wk) \<and>
            fst (generate_embedding_vector env (texts ! k) wk) = Inr (vs ! k)))) \<and>
   (\<forall>k < length texts. \<forall>vs wk e w1.
      generate_embeddings_batch env (take k texts) w = (Inr vs, wk) \<and>
      generate_embedding_vector env (texts ! k) wk = (Inl e, w1) \<longrightarrow>
      generate_embeddings_batch env texts w = (Inl e, w1)) \<and>
   ((\<exists>vs w'. generate_embeddings_batch env texts w = (Inr vs, w')) \<or>
    (\<exists>k < length texts. \<exists>vs wk e w1.
      generate_embeddings_batch env (take k texts) w = (Inr vs, wk) \<and>
      generate_embedding_vector env (texts ! k) wk = (Inl e, w1) \<and>
      generate_embeddings_batch env texts w = (Inl e, w1)))"
proof (intro conjI allI impI)
  fix vs w'
  assume ok: "generate_embeddings_batch env texts w = (Inr vs, w')"
  then show "length vs = length texts" by (rule batch_length)
  fix k assume k: "k < length texts"
  from batch_prefix_ok [OF ok k] obtain wk where
    wk: "generate_embeddings_batch env (take k texts) w = (Inr (take k vs), wk)"
      "fst (generate_embedding_vector env (texts ! k) wk) = Inr (vs ! k)"
    by blast
  from wk(2) generate_embedding_vector_not_None [of env "texts ! k" wk]
  show "vs ! k \<noteq> None" by auto
  from wk show "\<exists>wk. generate_embeddings_batch env (take k texts) w = (Inr (take k vs), wk) \<and>
            fst (generate_embedding_vector env (texts ! k) wk) = Inr (vs ! k)"
    by blast
next
  fix k vs wk e w1
  assume "k < length texts"
    and "generate_embeddings_batch env (take k texts) w = (Inr vs, wk) \<and>
      generate_embedding_vector env (texts ! k) wk = (Inl e, w1)"
  then show "generate_embeddings_batch env texts w = (Inl e, w1)"
    using batch_fail_fast by blast
next
  show "(\<exists>vs w'. generate_embeddings_batch env texts w = (Inr vs, w')) \<or>
    (\<exists>k < length texts. \<exists>vs wk e w1.
      generate_embeddings_batch env (take k texts) w = (Inr vs, wk) \<and>
      generate_embedding_vector env (texts ! k) wk = (Inl e, w1) \<and>
      generate_embeddings_batch env texts w = (Inl e, w1))"
    by (rule batch_result_cases)
qed

theorem generate_embeddings_batch_all_or_nothing_witness:
  "generate_embeddings_batch throttled_twice [''a'', ''b''] empty_trace =
     (Inr [Some [1, 0], Some [1, 0]],
      \<lparr>calls = [\<lparr>inputText = ''a'', dimensions = 2, normalize = True\<rparr>,
                \<lparr>inputText = ''a'', dimensions = 2, normalize = True\<rparr>,
                \<lparr>inputText = ''a'', dimensions = 2, normalize = True\<rparr>,
                \<lparr>inputText = ''b'', dimensions = 2, normalize = True\<rparr>],
       draws = 2, sleeps = [3 / 2, 5 / 2], vector_calls = [], warnings = []\<rparr>) \<and>
   length [Some [1, 0], Some [1, 0 :: real]] = length [''a'', ''b''] \<and>
   generate_embeddings_batch denied_second (take 1 [''a'', ''b'']) empty_trace =
     (Inr [Some [1, 0]],
      \<lparr>calls = [\<lparr>inputText = ''a'', dimensions = 2, normalize = True\<rparr>],
       draws = 0, sleeps = [], vector_calls = [], warnings = []\<rparr>) \<and>
   generate_embeddings_batch denied_second [''a'', ''b''] empty_trace =
     (Inl (ClientError ''AccessDeniedException'' ''denied''),
      \<lparr>calls = [\<lparr>inputText = ''a'', dimensions = 2, normalize = True\<rparr>,
                \<lparr>inputText = ''b'', dimensions = 2, normalize = True\<rparr>],
       draws = 0, sleeps = [], vector_calls = [], warnings = []\<rparr>)"
proof -
  note defs = generate_embeddings_batch_def generate_embedding_vector_def
    EMBEDDING_INPUT_LIMIT_CHARS_def MAX_RETRIES_def throttled_twice_def denied_second_def
    empty_trace_def upt_six rate_limit_code_def Let_def
  have ok: "generate_embeddings_batch throttled_twice [''a'', ''b''] empty_trace =
     (Inr [Some [1, 0], Some [1, 0]],
      \<lparr>calls = [\<lparr>inputText = ''a'', dimensions = 2, normalize = True\<rparr>,
                \<lparr>inputText = ''a'', dimensions = 2, normalize = True\<rparr>,
                \<lparr>inputText = ''a'', dimensions = 2, normalize = True\<rparr>,
                \<lparr>inputText = ''b'', dimensions = 2, normalize = True\<rparr>],
       draws = 2, sleeps = [3 / 2, 5 / 2], vector_calls = [], warnings = []\<rparr>)"
    by (simp add: defs)
  have pre: "generate_embeddings_batch denied_second (take 1 [''a'', ''b'']) empty_trace =
     (Inr [Some [1, 0]],
      \<lparr>calls = [\<lparr>inputText = ''a'', dimensions = 2, normalize = True\<rparr>],
       draws = 0, sleeps = [], vector_calls = [], warnings = []\<rparr>)"
    by (simp add: defs)
  have bad: "generate_embedding_vector denied_second ([''a'', ''b''] ! 1)
       \<lparr>calls = [\<lparr>inputText = ''a'', dimensions = 2, normalize = True\<rparr>],
        draws = 0, sleeps = [], vector_calls = [], warnings = []\<rparr> =
     (Inl (ClientError ''AccessDeniedException'' ''denied''),
      \<lparr>calls = [\<lparr>inputText = ''a'', dimensions = 2, normalize = True\<rparr>,
                \<lparr>inputText = ''b'', dimensions = 2, normalize = True\<rparr>],
       draws = 0, sleeps = [], vector_calls = [], warnings = []\<rparr>)"
    by (simp add: defs)
  have k: "1 < length [''a'', ''b'']" by simp
  from generate_embeddings_batch_all_or_nothing [of throttled_twice "[''a'', ''b'']" empty_trace] ok
  have "length [Some [1, 0], Some [1, 0 :: real]] = length [''a'', ''b'']" by blast
  moreover from generate_embeddings_batch_all_or_nothing
    [of denied_second "[''a'', ''b'']" empty_trace] k pre bad
  have "generate_embeddings_batch denied_second [''a'', ''b''] empty_trace =
     (Inl (ClientError ''AccessDeniedException'' ''denied''),
      \<lparr>calls = [\<lparr>inputText = ''a'', dimensions = 2, normalize = True\<rparr>,
                \<lparr>inputText = ''b'', dimensions = 2, normalize = True\<rparr>],
       draws = 0, sleeps = [], vector_calls = [], warnings = []\<rparr>)"
    by blast
  ultimately show ?thesis using ok pre by simp
qed

section \<open>Batches of at most 500\<close>

lemma py_index_int: "py_index n (int m) = min m n"
  by (simp add: py_index_def)

lemma py_slice_nat: "py_slice xs (int i) (int (i + n)) = take n (drop i xs)"
proof -
  have "py_slice xs (int i) (int (i + n)) =
      take (min (i + n) (length xs) - min i (length xs)) (drop (min i (length xs)) xs)"
    unfolding py_slice_def Let_def py_index_int ..
  also have "\<dots> = take n (drop i xs)"
  proof (cases "i \<le> length xs")
    case True
    then show ?thesis by (cases "i + n \<le> length xs") (simp_all add: min_def)
  next
    case False
    then show ?thesis by (simp add: min_def)
  qed
  finally show ?thesis .
qed

lemma concat_take_drop:
  "concat (map (\<lambda>k. take s (drop (k * s) xs)) [0..<m]) = take (m * s) xs"
proof (induction m)
  case 0
  show ?case by simp
next
  case (Suc m)
  have "take (m * s) xs @ take s (drop (m * s) xs) = take (m * s + s) xs"
    by (simp add: take_add)
  with Suc show ?case by (simp add: add.commute)
qed

lemma batches_of_eq:
  "batches_of xs =
     map (\<lambda>k. take VECTORS_PER_BATCH (drop (k * VECTORS_PER_BATCH) xs))
       [0..<(length xs + VECTORS_PER_BATCH - 1) div VECTORS_PER_BATCH]"
  by (simp add: batches_of_def range_step_def py_slice_nat o_def del: of_nat_add of_nat_mult)

lemma concat_batches_of: "concat (batches_of xs) = xs"
proof -
  have "length xs \<le> ((length xs + VECTORS_PER_BATCH - 1) div VECTORS_PER_BATCH) * VECTORS_PER_BATCH"
    unfolding VECTORS_PER_BATCH_def by arith
  then show ?thesis by (simp add: batches_of_eq concat_take_drop)
qed

lemma batches_of_bounded: "b \<in> set (batches_of xs) \<Longrightarrow> length b \<le> VECTORS_PER_BATCH \<and> b \<noteq> []"
proof -
  assume "b \<in> set (batches_of xs)"
  then obtain k where k: "k < (length xs + VECTORS_PER_BATCH - 1) div VECTORS_PER_BATCH"
    and b: "b = take VECTORS_PER_BATCH (drop (k * VECTORS_PER_BATCH) xs)"
    by (auto simp: batches_of_eq)
  from k have "k * VECTORS_PER_BATCH < length xs"
    unfolding VECTORS_PER_BATCH_def by arith
  with b show ?thesis by (simp add: VECTORS_PER_BATCH_def)
qed

lemma sum_length_batches_of: "sum_list (map length (batches_of xs)) = length xs"
  using length_concat [of "batches_of xs"] by (simp add: concat_batches_of)

section \<open>The store and delete loops\<close>

lemma store_loop_run:
  assumes "\<And>j. j < length starts \<Longrightarrow>
     put_vectors env (length (vector_calls w) + j)
       (py_slice vectors (int (starts ! j)) (int (starts ! j + VECTORS_PER_BATCH))) = Inr ()"
  shows "store_loop env vectors starts c w =
     (Inr (c + sum_list (map (\<lambda>s. length (py_slice vectors (int s) (int (s + VECTORS_PER_BATCH)))) starts)),
      w\<lparr>vector_calls := vector_calls w
          @ map (\<lambda>s. PutVectors (py_slice vectors (int s) (int (s + VECTORS_PER_BATCH)))) starts\<rparr>)"
  using assms
proof (induction starts arbitrary: c w)
  case Nil
  show ?case by simp
next
  case (Cons s rest)
  define w1 where "w1 = w\<lparr>vector_calls := vector_calls w
      @ [PutVectors (py_slice vectors (int s) (int (s + VECTORS_PER_BATCH)))]\<rparr>"
  from Cons.prems [of 0] have first: "put_vectors env (length (vector_calls w))
       (py_slice vectors (int s) (int (s + VECTORS_PER_BATCH))) = Inr ()" by simp
  have "store_loop env vectors rest (c + length (py_slice vectors (int s) (int (s + VECTORS_PER_BATCH)))) w1 =
     (Inr (c + length (py_slice vectors (int s) (int (s + VECTORS_PER_BATCH)))
           + sum_list (map (\<lambda>s. length (py_slice vectors (int s) (int (s + VECTORS_PER_BATCH)))) rest)),
      w1\<lparr>vector_calls := vector_calls w1
          @ map (\<lambda>s. PutVectors (py_slice vectors (int s) (int (s + VECTORS_PER_BATCH)))) rest\<rparr>)"
  proof (rule Cons.IH)
    fix j assume "j < length rest"
    then have "Suc j < length (s # rest)" by simp
    from Cons.prems [OF this]
    show "put_vectors env (length (vector_calls w1) + j)
       (py_slice vectors (int (rest ! j)) (int (rest ! j + VECTORS_PER_BATCH))) = Inr ()"
      by (simp add: w1_def)
  qed
  with first show ?case
    by (simp add: Let_def w1_def [symmetric] del: of_nat_add) (simp add: w1_def)
qed

lemma store_loop_Inr:
  "store_loop env vectors starts c w = (Inr n, w') \<Longrightarrow>
   n = c + sum_list (map (\<lambda>s. length (py_slice vectors (int s) (int (s + VECTORS_PER_BATCH)))) starts)"
proof (induction starts arbitrary: c w)
  case Nil
  then show ?case by simp
next
  case (Cons s rest)
  from Cons.prems have "store_loop env vectors rest
        (c + length (py_slice vectors (int s) (int (s + VECTORS_PER_BATCH))))
        (w\<lparr>vector_calls := vector_calls w
           @ [PutVectors (py_slice vectors (int s) (int (s + VECTORS_PER_BATCH)))]\<rparr>) = (Inr n, w')"
    by (simp add: Let_def split: sum.splits del: of_nat_add)
  from Cons.IH [OF this] show ?case by simp
qed

lemma store_loop_Inl:
  "store_loop env vectors starts c w = (Inl e, w') \<Longrightarrow>
   \<exists>j < length starts. put_vectors env (length (vector_calls w) + j)
       (py_slice vectors (int (starts ! j)) (int (starts ! j + VECTORS_PER_BATCH))) = Inl e"
proof (induction starts arbitrary: c w)
  case Nil
  then show ?case by simp
next
  case (Cons s rest)
  show ?case
  proof (cases "put_vectors env (length (vector_calls w))
       (py_slice vectors (int s) (int (s + VECTORS_PER_BATCH)))")
    case (Inl e')
    with Cons.prems have "e' = e" by (simp add: Let_def del: of_nat_add)
    with Inl show ?thesis by (intro exI [of _ 0]) simp
  next
    case (Inr u)
    with Cons.prems have "store_loop env vectors rest
        (c + length (py_slice vectors (int s) (int (s + VECTORS_PER_BATCH))))
        (w\<lparr>vector_calls := vector_calls w
           @ [PutVectors (py_slice vectors (int s) (int (s + VECTORS_PER_BATCH)))]\<rparr>) = (Inl e, w')"
      by (simp add: Let_def del: of_nat_add)
    from Cons.IH [OF this] obtain j where "j < length rest"
      "put_vectors env (Suc (length (vector_calls w)) + j)
       (py_slice vectors (int (rest ! j)) (int (rest ! j + VECTORS_PER_BATCH))) = Inl e"
      by auto
    then show ?thesis by (intro exI [of _ "Suc j"]) simp
  qed
qed

lemma delete_loop_run:
  assumes "\<And>j msg. j < length starts \<Longrightarrow>
     delete_vectors env (length (vector_calls w) + j)
       (py_slice keys (int (starts ! j)) (int (starts ! j + VECTORS_PER_BATCH))) \<noteq> Inl (OtherError msg)"
  shows "delete_loop env keys starts c w =
     (Inr (c + sum_list (map (\<lambda>j.
               if succeeded (delete_vectors env (length (vector_calls w) + j)
                     (py_slice keys (int (starts ! j)) (int (starts ! j + VECTORS_PER_BATCH))))
               then length (py_slice keys (int (starts ! j)) (int (starts ! j + VECTORS_PER_BATCH)))
               else 0) [0..<length starts])),
      w\<lparr>vector_calls := vector_calls w
          @ map (\<lambda>s. DeleteVectors (py_slice keys (int s) (int (s + VECTORS_PER_BATCH)))) starts,
        warnings := warnings w
          @ concat (map (\<lambda>j. failure_of (starts ! j)
               (delete_vectors env (length (vector_calls w) + j)
                  (py_slice keys (int (starts ! j)) (int (starts ! j + VECTORS_PER_BATCH)))))
              [0..<length starts])\<rparr>)"
  using assms
proof (induction starts arbitrary: c w)
  case Nil
  show ?case by simp
next
  case (Cons s rest)
  let ?b = "\<lambda>s. py_slice keys (int s) (int (s + VECTORS_PER_BATCH))"
  define r where "r = delete_vectors env (length (vector_calls w)) (?b s)"
  define w1 where "w1 = w\<lparr>vector_calls := vector_calls w @ [DeleteVectors (?b s)],
     warnings := warnings w @ failure_of s r\<rparr>"
  define c1 where "c1 = c + (if succeeded r then length (?b s) else 0)"
  from Cons.prems [of 0] have no: "\<And>msg. r \<noteq> Inl (OtherError msg)" by (simp add: r_def)
  have step: "delete_loop env keys (s # rest) c w = delete_loop env keys rest c1 w1"
  proof (cases r)
    case (Inr u)
    then show ?thesis
      by (simp add: Let_def r_def [symmetric] w1_def c1_def succeeded_def failure_of_def
          del: of_nat_add)
  next
    case (Inl e)
    with no obtain code msg where "e = ClientError code msg" by (cases e) auto
    with Inl show ?thesis
      by (simp add: Let_def r_def [symmetric] w1_def c1_def succeeded_def failure_of_def
          del: of_nat_add)
  qed
  have ih: "delete_loop env keys rest c1 w1 =
     (Inr (c1 + sum_list (map (\<lambda>j.
               if succeeded (delete_vectors env (length (vector_calls w1) + j) (?b (rest ! j)))
               then length (?b (rest ! j)) else 0) [0..<length rest])),
      w1\<lparr>vector_calls := vector_calls w1 @ map (\<lambda>s. DeleteVectors (?b s)) rest,
        warnings := warnings w1
          @ concat (map (\<lambda>j. failure_of (rest ! j)
               (delete_vectors env (length (vector_calls w1) + j) (?b (rest ! j))))
              [0..<length rest])\<rparr>)"
  proof (rule Cons.IH)
    fix j msg assume "j < length rest"
    then have "Suc j < length (s # rest)" by simp
    from Cons.prems [OF this, of msg]
    show "delete_vectors env (length (vector_calls w1) + j) (?b (rest ! j)) \<noteq> Inl (OtherError msg)"
      by (simp add: w1_def)
  qed
  have len1: "length (vector_calls w1) = Suc (length (vector_calls w))" by (simp add: w1_def)
  show ?case
    unfolding step ih len1
    by (simp add: map_upt_Suc r_def [symmetric] c1_def w1_def del: upt_Suc of_nat_add
        cong: if_cong)
qed

section \<open>Storing vectors\<close>

lemma length_build_vectors:
  "length (build_vectors d f texts embs) = min (length texts) (length embs)"
  by (simp add: build_vectors_def)

lemma nth_build_vectors:
  assumes "i < min (length texts) (length embs)"
  shows "build_vectors d f texts embs ! i =
     \<lparr>key = vector_key d i, data = embs ! i,
      metadata = \<lparr>document_id = d, document_filename = f, chunk_index = i,
         chunk_text' = (if length (texts ! i) > 500 then take 500 (texts ! i) @ ''...''
                        else take 500 (texts ! i))\<rparr>\<rparr>"
  using assms
  by (simp add: build_vectors_def nth_enumerate_eq Let_def py_slice_take
      METADATA_TEXT_MAX_CHARS_def)

lemma keys_build_vectors:
  "map key (build_vectors d f texts embs) =
     map (vector_key d) [0..<min (length texts) (length embs)]"
  by (rule nth_equalityI) (simp_all add: length_build_vectors nth_build_vectors)

lemma length_batches_of: "length (batches_of xs) = length (range_step (length xs) VECTORS_PER_BATCH)"
  by (simp add: batches_of_def)

lemma nth_batches_of:
  "j < length (range_step (length xs) VECTORS_PER_BATCH) \<Longrightarrow>
   batches_of xs ! j =
     py_slice xs (int (range_step (length xs) VECTORS_PER_BATCH ! j))
       (int (range_step (length xs) VECTORS_PER_BATCH ! j + VECTORS_PER_BATCH))"
  by (simp add: batches_of_def)

lemma store_document_vectors_ok:
  assumes "\<And>j. j < length (batches_of (build_vectors d f texts embs)) \<Longrightarrow>
     put_vectors env (length (vector_calls w) + j) (batches_of (build_vectors d f texts embs) ! j)
       = Inr ()"
  shows "store_document_vectors env d f texts embs w =
     (Inr (length (build_vectors d f texts embs)),
      w\<lparr>vector_calls := vector_calls w
          @ map PutVectors (batches_of (build_vectors d f texts embs))\<rparr>)"
proof -
  define vs where "vs = build_vectors d f texts embs"
  define starts where "starts = range_step (length vs) VECTORS_PER_BATCH"
  have "store_loop env vs starts 0 w =
     (Inr (0 + sum_list (map (\<lambda>s. length (py_slice vs (int s) (int (s + VECTORS_PER_BATCH)))) starts)),
      w\<lparr>vector_calls := vector_calls w
          @ map (\<lambda>s. PutVectors (py_slice vs (int s) (int (s + VECTORS_PER_BATCH)))) starts\<rparr>)"
  proof (rule store_loop_run)
    fix j assume j: "j < length starts"
    then have "j < length (batches_of vs)" by (simp add: length_batches_of starts_def)
    from assms [folded vs_def, OF this] j
    show "put_vectors env (length (vector_calls w) + j)
       (py_slice vs (int (starts ! j)) (int (starts ! j + VECTORS_PER_BATCH))) = Inr ()"
      by (simp add: nth_batches_of starts_def)
  qed
  moreover have "map (\<lambda>s. PutVectors (py_slice vs (int s) (int (s + VECTORS_PER_BATCH)))) starts
      = map PutVectors (batches_of vs)"
    by (simp add: batches_of_def starts_def o_def)
  moreover have "sum_list (map (\<lambda>s. length (py_slice vs (int s) (int (s + VECTORS_PER_BATCH)))) starts)
      = length vs"
    using sum_length_batches_of [of vs] by (simp add: batches_of_def starts_def o_def)
  ultimately show ?thesis
    by (simp add: store_document_vectors_def Let_def vs_def [symmetric] starts_def [symmetric])
qed

lemma store_document_vectors_Inr:
  assumes "store_document_vectors env d f texts embs w = (Inr n, w')"
  shows "n = length (build_vectors d f texts embs)"
proof -
  define vs where "vs = build_vectors d f texts embs"
  from assms have "store_loop env vs (range_step (length vs) VECTORS_PER_BATCH) 0 w = (Inr n, w')"
    by (simp add: store_document_vectors_def Let_def vs_def)
  from store_loop_Inr [OF this] sum_length_batches_of [of vs]
  show ?thesis by (simp add: batches_of_def o_def vs_def)
qed

lemma store_document_vectors_Inl:
  assumes "store_document_vectors env d f texts embs w = (Inl e, w')"
  shows "\<exists>j < length (batches_of (build_vectors d f texts embs)).
     put_vectors env (length (vector_calls w) + j) (batches_of (build_vectors d f texts embs) ! j)
       = Inl e"
proof -
  define vs where "vs = build_vectors d f texts embs"
  from assms have "store_loop env vs (range_step (length vs) VECTORS_PER_BATCH) 0 w = (Inl e, w')"
    by (simp add: store_document_vectors_def Let_def vs_def)
  from store_loop_Inl [OF this] show ?thesis
    unfolding vs_def [symmetric] by (auto simp: length_batches_of nth_batches_of)
qed

text \<open>
  C10. When \<open>chunk_texts\<close> and \<open>embeddings\<close> differ in length, \<open>store_document_vectors\<close>
  builds records for the first \<open>min(len(chunk_texts), len(embeddings))\<close> index pairs only,
  record \<open>i\<close> from \<open>chunk_texts[i]\<close> and \<open>embeddings[i]\<close>. The only exceptions it raises are
  those of \<open>put_vectors\<close>; when every batch is accepted it returns that minimum.
\<close>

theorem store_document_vectors_min:
  "length (build_vectors d f texts embs) = min (length texts) (length embs) \<and>
   (\<forall>i < min (length texts) (length embs).
      build_vectors d f texts embs ! i =
        \<lparr>key = vector_key d i, data = embs ! i,
         metadata = \<lparr>document_id = d, document_filename = f, chunk_index = i,
            chunk_text' = (if length (texts ! i) > 500 then take 500 (texts ! i) @ ''...''
                           else take 500 (texts ! i))\<rparr>\<rparr>) \<and>
   (\<forall>n w'. store_document_vectors env d f texts embs w = (Inr n, w') \<longrightarrow>
      n = min (length texts) (length embs)) \<and>
   (\<forall>e w'. store_document_vectors env d f texts embs w = (Inl e, w') \<longrightarrow>
      (\<exists>j < length (batches_of (build_vectors d f texts embs)).
         put_vectors env (length (vector_calls w) + j)
           (batches_of (build_vectors d f texts embs) ! j) = Inl e)) \<and>
   ((\<forall>j < length (batches_of (build_vectors d f texts embs)).
       put_vectors env (length (vector_calls w) + j)
         (batches_of (build_vectors d f texts embs) ! j) = Inr ()) \<longrightarrow>
    store_document_vectors env d f texts embs w =
      (Inr (min (length texts) (length embs)),
       w\<lparr>vector_calls := vector_calls w
           @ map PutVectors (batches_of (build_vectors d f texts embs))\<rparr>))"
proof (intro conjI allI impI)
  show "length (build_vectors d f texts embs) = min (length texts) (length embs)"
    by (rule length_build_vectors)
next
  fix i assume "i < min (length texts) (length embs)"
  then show "build_vectors d f texts embs ! i =
        \<lparr>key = vector_key d i, data = embs ! i,
         metadata = \<lparr>document_id = d, document_filename = f, chunk_index = i,
            chunk_text' = (if length (texts ! i) > 500 then take 500 (texts ! i) @ ''...''
                           else take 500 (texts ! i))\<rparr>\<rparr>"
    by (rule nth_build_vectors)
next
  fix n w' assume "store_document_vectors env d f texts embs w = (Inr n, w')"
  from store_document_vectors_Inr [OF this]
  show "n = min (length texts) (length embs)" by (simp add: length_build_vectors)
next
  fix e w' assume "store_document_vectors env d f texts embs w = (Inl e, w')"
  then show "\<exists>j < length (batches_of (build_vectors d f texts embs)).
         put_vectors env (length (vector_calls w) + j)
           (batches_of (build_vectors d f texts embs) ! j) = Inl e"
    by (rule store_document_vectors_Inl)
next
  assume "\<forall>j < length (batches_of (build_vectors d f texts embs)).
       put_vectors env (length (vector_calls w) + j)
         (batches_of (build_vectors d f texts embs) ! j) = Inr ()"
  then have "store_document_vectors env d f texts embs w =
     (Inr (length (build_vectors d f texts embs)),
      w\<lparr>vector_calls := vector_calls w
          @ map PutVectors (batches_of (build_vectors d f texts embs))\<rparr>)"
    by (intro store_document_vectors_ok) blast
  then show "store_document_vectors env d f texts embs w =
      (Inr (min (length texts) (length embs)),
       w\<lparr>vector_calls := vector_calls w
           @ map PutVectors (batches_of (build_vectors d f texts embs))\<rparr>)"
    by (simp add: length_build_vectors)
qed

theorem store_document_vectors_min_witness:
  "store_document_vectors throttled_twice ''doc'' ''f.txt'' [''one'', ''two'', ''three'']
       [[1, 0], [0, 1]] empty_trace =
     (Inr 2,
      \<lparr>calls = [], draws = 0, sleeps = [],
       vector_calls =
         [PutVectors
           [\<lparr>key = ''doc#0'', data = [1, 0],
              metadata = \<lparr>document_id = ''doc'', document_filename = ''f.txt'',
                           chunk_index = 0, chunk_text' = ''one''\<rparr>\<rparr>,
            \<lparr>key = ''doc#1'', data = [0, 1],
              metadata = \<lparr>document_id = ''doc'', document_filename = ''f.txt'',
                           chunk_index = 1, chunk_text' = ''two''\<rparr>\<rparr>]],
       warnings = []\<rparr>) \<and>
   (2::nat) = min (length [''one'', ''two'', ''three'']) (length [[1, 0], [0, 1 :: real]])"
proof -
  have run: "store_document_vectors throttled_twice ''doc'' ''f.txt'' [''one'', ''two'', ''three'']
       [[1, 0], [0, 1]] empty_trace =
     (Inr 2,
      \<lparr>calls = [], draws = 0, sleeps = [],
       vector_calls =
         [PutVectors
           [\<lparr>key = ''doc#0'', data = [1, 0],
              metadata = \<lparr>document_id = ''doc'', document_filename = ''f.txt'',
                           chunk_index = 0, chunk_text' = ''one''\<rparr>\<rparr>,
            \<lparr>key = ''doc#1'', data = [0, 1],
              metadata = \<lparr>document_id = ''doc'', document_filename = ''f.txt'',
                           chunk_index = 1, chunk_text' = ''two''\<rparr>\<rparr>]],
       warnings = []\<rparr>)"
    by (simp add: store_document_vectors_def build_vectors_def range_step_def
        VECTORS_PER_BATCH_def METADATA_TEXT_MAX_CHARS_def throttled_twice_def empty_trace_def
        vector_key_def str_nat_small py_slice_def py_index_def Let_def)
  from store_document_vectors_min [of "''doc''" "''f.txt''" "[''one'', ''two'', ''three'']"
      "[[1, 0], [0, 1]]" throttled_twice empty_trace] run
  have "(2::nat) = min (length [''one'', ''two'', ''three'']) (length [[1, 0], [0, 1 :: real]])"
    by blast
  with run show ?thesis by (rule_tac conjI)
qed

section \<open>Deleting vectors\<close>

lemma nth_range_step: "j < length (range_step n s) \<Longrightarrow> range_step n s ! j = j * s"
  by (simp add: range_step_def)

lemma delete_document_vectors_run:
  assumes "\<And>j msg. j < length (batches_of (delete_keys d cc)) \<Longrightarrow>
     delete_vectors env (length (vector_calls w) + j) (batches_of (delete_keys d cc) ! j)
       \<noteq> Inl (OtherError msg)"
  shows "delete_document_vectors env d cc w =
     (Inr (sum_list (map (\<lambda>j.
              if succeeded (delete_vectors env (length (vector_calls w) + j)
                    (batches_of (delete_keys d cc) ! j))
              then length (batches_of (delete_keys d cc) ! j) else 0)
            [0..<length (batches_of (delete_keys d cc))])),
      w\<lparr>vector_calls := vector_calls w @ map DeleteVectors (batches_of (delete_keys d cc)),
        warnings := warnings w
          @ concat (map (\<lambda>j. failure_of (j * VECTORS_PER_BATCH)
               (delete_vectors env (length (vector_calls w) + j)
                  (batches_of (delete_keys d cc) ! j)))
              [0..<length (batches_of (delete_keys d cc))])\<rparr>)"
proof -
  define keys where "keys = delete_keys d cc"
  define starts where "starts = range_step (length keys) VECTORS_PER_BATCH"
  let ?b = "\<lambda>s. py_slice keys (int s) (int (s + VECTORS_PER_BATCH))"
  have len: "length (batches_of keys) = length starts"
    by (simp add: length_batches_of starts_def)
  have nth: "?b (starts ! j) = batches_of keys ! j" if "j < length starts" for j
    using that by (simp add: nth_batches_of starts_def)
  have st: "starts ! j = j * VECTORS_PER_BATCH" if "j < length starts" for j
    using that unfolding starts_def by (rule nth_range_step)
  have nth2: "?b (j * VECTORS_PER_BATCH) = batches_of keys ! j" if "j < length starts" for j
    using nth [OF that] st [OF that] by simp
  have run: "delete_loop env keys starts 0 w =
     (Inr (0 + sum_list (map (\<lambda>j.
               if succeeded (delete_vectors env (length (vector_calls w) + j) (?b (starts ! j)))
               then length (?b (starts ! j)) else 0) [0..<length starts])),
      w\<lparr>vector_calls := vector_calls w @ map (\<lambda>s. DeleteVectors (?b s)) starts,
        warnings := warnings w
          @ concat (map (\<lambda>j. failure_of (starts ! j)
               (delete_vectors env (length (vector_calls w) + j) (?b (starts ! j))))
              [0..<length starts])\<rparr>)"
  proof (rule delete_loop_run)
    fix j msg assume j: "j < length starts"
    then have "j < length (batches_of keys)" by (simp only: len)
    from assms [folded keys_def, OF this, of msg]
    show "delete_vectors env (length (vector_calls w) + j) (?b (starts ! j)) \<noteq> Inl (OtherError msg)"
      by (simp only: nth [OF j]) simp
  qed
  have a: "map (\<lambda>j. if succeeded (delete_vectors env (length (vector_calls w) + j) (?b (starts ! j)))
               then length (?b (starts ! j)) else 0) [0..<length starts] =
      map (\<lambda>j. if succeeded (delete_vectors env (length (vector_calls w) + j) (batches_of keys ! j))
               then length (batches_of keys ! j) else 0) [0..<length starts]"
    by (rule map_cong) (simp_all only: nth atLeastLessThan_iff set_upt)
  have b: "map (\<lambda>j. failure_of (starts ! j)
               (delete_vectors env (length (vector_calls w) + j) (?b (starts ! j))))
              [0..<length starts] =
      map (\<lambda>j. failure_of (j * VECTORS_PER_BATCH)
               (delete_vectors env (length (vector_calls w) + j) (batches_of keys ! j)))
              [0..<length starts]"
    by (rule map_cong) (simp_all only: nth2 st atLeastLessThan_iff set_upt)
  have c: "map (\<lambda>s. DeleteVectors (?b s)) starts = map DeleteVectors (batches_of keys)"
    by (simp add: batches_of_def starts_def o_def)
  show ?thesis
    unfolding delete_document_vectors_def Let_def keys_def [symmetric] starts_def [symmetric]
      run a b c len by simp
qed

lemma delete_keys_nth:
  "0 \<le> cc \<Longrightarrow> int (length (delete_keys d cc)) = cc"
  "i < length (delete_keys d cc) \<Longrightarrow> delete_keys d cc ! i = d @ ''#'' @ str_nat i"
  by (simp_all add: delete_keys_def vector_key_def)

text \<open>
  C6, as stated, fails when the remote call fails with an exception that is not a
  \<open>ClientError\<close>: the loop catches \<open>ClientError\<close> only, so the exception reaches the caller
  and nothing is logged.
\<close>

theorem delete_document_vectors_raises_counterexample:
  "(0::int) \<le> 2 \<and>
   delete_document_vectors connection_lost ''doc'' 2 empty_trace =
     (Inl (OtherError ''Could not connect to the endpoint URL''),
      \<lparr>calls = [], draws = 0, sleeps = [],
       vector_calls = [DeleteVectors [''doc#0'', ''doc#1'']], warnings = []\<rparr>)"
  by (simp add: delete_document_vectors_def delete_keys_def range_step_def
      VECTORS_PER_BATCH_def connection_lost_def empty_trace_def vector_key_def str_nat_small
      py_slice_def py_index_def Let_def upt_rec numeral_2_eq_2)

lemma delete_loop_stop:
  assumes "m \<le> length starts"
    and "\<And>j msg. j < m \<Longrightarrow>
     delete_vectors env (length (vector_calls w) + j)
       (py_slice keys (int (starts ! j)) (int (starts ! j + VECTORS_PER_BATCH))) \<noteq> Inl (OtherError msg)"
    and "m < length starts \<Longrightarrow>
     delete_vectors env (length (vector_calls w) + m)
       (py_slice keys (int (starts ! m)) (int (starts ! m + VECTORS_PER_BATCH))) = Inl (OtherError other)"
  shows "delete_loop env keys starts c w =
     (if m = length starts
      then Inr (c + sum_list (map (\<lambda>j.
               if succeeded (delete_vectors env (length (vector_calls w) + j)
                     (py_slice keys (int (starts ! j)) (int (starts ! j + VECTORS_PER_BATCH))))
               then length (py_slice keys (int (starts ! j)) (int (starts ! j + VECTORS_PER_BATCH)))
               else 0) [0..<m]))
      else Inl (OtherError other),
      w\<lparr>vector_calls := vector_calls w
          @ map (\<lambda>s. DeleteVectors (py_slice keys (int s) (int (s + VECTORS_PER_BATCH))))
              (take (Suc m) starts),
        warnings := warnings w
          @ concat (map (\<lambda>j. failure_of (starts ! j)
               (delete_vectors env (length (vector_calls w) + j)
                  (py_slice keys (int (starts ! j)) (int (starts ! j + VECTORS_PER_BATCH)))))
              [0..<m])\<rparr>)"
  using assms
proof (induction starts arbitrary: m c w)
  case Nil
  then show ?case by simp
next
  case (Cons s rest)
  let ?b = "\<lambda>s. py_slice keys (int s) (int (s + VECTORS_PER_BATCH))"
  define r where "r = delete_vectors env (length (vector_calls w)) (?b s)"
  show ?case
  proof (cases m)
    case 0
    with Cons.prems(3) have "r = Inl (OtherError other)" by (simp add: r_def)
    with 0 show ?thesis
      by (simp add: Let_def r_def [symmetric] del: of_nat_add)
  next
    case (Suc m')
    define w1 where "w1 = w\<lparr>vector_calls := vector_calls w @ [DeleteVectors (?b s)],
       warnings := warnings w @ failure_of s r\<rparr>"
    define c1 where "c1 = c + (if succeeded r then length (?b s) else 0)"
    from Cons.prems(2) [of 0] Suc have no: "\<And>msg. r \<noteq> Inl (OtherError msg)"
      by (simp add: r_def)
    have step: "delete_loop env keys (s # rest) c w = delete_loop env keys rest c1 w1"
    proof (cases r)
      case (Inr u)
      then show ?thesis
        by (simp add: Let_def r_def [symmetric] w1_def c1_def succeeded_def failure_of_def
            del: of_nat_add)
    next
      case (Inl e)
      with no obtain code msg where "e = ClientError code msg" by (cases e) auto
      with Inl show ?thesis
        by (simp add: Let_def r_def [symmetric] w1_def c1_def succeeded_def failure_of_def
            del: of_nat_add)
    qed
    have len1: "length (vector_calls w1) = Suc (length (vector_calls w))" by (simp add: w1_def)
    have ih: "delete_loop env keys rest c1 w1 =
     (if m' = length rest
      then Inr (c1 + sum_list (map (\<lambda>j.
               if succeeded (delete_vectors env (length (vector_calls w1) + j) (?b (rest ! j)))
               then length (?b (rest ! j)) else 0) [0..<m']))
      else Inl (OtherError other),
      w1\<lparr>vector_calls := vector_calls w1 @ map (\<lambda>s. DeleteVectors (?b s)) (take (Suc m') rest),
        warnings := warnings w1
          @ concat (map (\<lambda>j. failure_of (rest ! j)
               (delete_vectors env (length (vector_calls w1) + j) (?b (rest ! j))))
              [0..<m'])\<rparr>)"
    proof (rule Cons.IH)
      show "m' \<le> length rest" using Cons.prems(1) Suc by simp
    next
      fix j msg assume "j < m'"
      then have "Suc j < m" using Suc by simp
      from Cons.prems(2) [OF this, of msg]
      show "delete_vectors env (length (vector_calls w1) + j) (?b (rest ! j)) \<noteq> Inl (OtherError msg)"
        by (simp add: len1)
    next
      assume "m' < length rest"
      then have "m < length (s # rest)" using Suc by simp
      from Cons.prems(3) [OF this] Suc
      show "delete_vectors env (length (vector_calls w1) + m') (?b (rest ! m')) = Inl (OtherError other)"
        by (simp add: len1)
    qed
    show ?thesis
      unfolding step ih len1 Suc
      by (simp add: map_upt_Suc r_def [symmetric] c1_def w1_def del: upt_Suc of_nat_add
          cong: if_cong)
  qed
qed

lemma delete_document_vectors_stop:
  assumes "m \<le> length (batches_of (delete_keys d cc))"
    and "\<And>j msg. j < m \<Longrightarrow>
     delete_vectors env (length (vector_calls w) + j) (batches_of (delete_keys d cc) ! j)
       \<noteq> Inl (OtherError msg)"
    and "m < length (batches_of (delete_keys d cc)) \<Longrightarrow>
     delete_vectors env (length (vector_calls w) + m) (batches_of (delete_keys d cc) ! m)
       = Inl (OtherError other)"
  shows "delete_document_vectors env d cc w =
     (if m = length (batches_of (delete_keys d cc))
      then Inr (sum_list (map (\<lambda>j.
              if succeeded (delete_vectors env (length (vector_calls w) + j)
                    (batches_of (delete_keys d cc) ! j))
              then length (batches_of (delete_keys d cc) ! j) else 0) [0..<m]))
      else Inl (OtherError other),
      w\<lparr>vector_calls := vector_calls w
          @ map DeleteVectors (take (Suc m) (batches_of (delete_keys d cc))),
        warnings := warnings w
          @ concat (map (\<lambda>j. failure_of (j * VECTORS_PER_BATCH)
               (delete_vectors env (length (vector_calls w) + j)
                  (batches_of (delete_keys d cc) ! j)))
              [0..<m])\<rparr>)"
proof -
  define keys where "keys = delete_keys d cc"
  define starts where "starts = range_step (length keys) VECTORS_PER_BATCH"
  let ?b = "\<lambda>s. py_slice keys (int s) (int (s + VECTORS_PER_BATCH))"
  have len: "length (batches_of keys) = length starts"
    by (simp add: length_batches_of starts_def)
  have nth: "?b (starts ! j) = batches_of keys ! j" if "j < length starts" for j
    using that by (simp add: nth_batches_of starts_def)
  have st: "starts ! j = j * VECTORS_PER_BATCH" if "j < length starts" for j
    using that unfolding starts_def by (rule nth_range_step)
  have nth2: "?b (j * VECTORS_PER_BATCH) = batches_of keys ! j" if "j < length starts" for j
    using nth [OF that] st [OF that] by simp
  have m: "m \<le> length starts" using assms(1) by (simp only: keys_def [symmetric] len)
  have run: "delete_loop env keys starts 0 w =
     (if m = length starts
      then Inr (0 + sum_list (map (\<lambda>j.
               if succeeded (delete_vectors env (length (vector_calls w) + j) (?b (starts ! j)))
               then length (?b (starts ! j)) else 0) [0..<m]))
      else Inl (OtherError other),
      w\<lparr>vector_calls := vector_calls w @ map (\<lambda>s. DeleteVectors (?b s)) (take (Suc m) starts),
        warnings := warnings w
          @ concat (map (\<lambda>j. failure_of (starts ! j)
               (delete_vectors env (length (vector_calls w) + j) (?b (starts ! j))))
              [0..<m])\<rparr>)"
  proof (rule delete_loop_stop [OF m])
    fix j msg assume j: "j < m"
    with m have jl: "j < length starts" by simp
    from assms(2) [folded keys_def, OF j, of msg]
    show "delete_vectors env (length (vector_calls w) + j) (?b (starts ! j)) \<noteq> Inl (OtherError msg)"
      by (simp only: nth [OF jl]) simp
  next
    assume ml: "m < length starts"
    then have "m < length (batches_of keys)" by (simp only: len)
    from assms(3) [folded keys_def, OF this]
    show "delete_vectors env (length (vector_calls w) + m) (?b (starts ! m)) = Inl (OtherError other)"
      by (simp only: nth [OF ml])
  qed
  have inm: "x \<in> set [0..<m] \<Longrightarrow> x < length starts" for x using m by simp
  have a: "map (\<lambda>j. if succeeded (delete_vectors env (length (vector_calls w) + j) (?b (starts ! j)))
               then length (?b (starts ! j)) else 0) [0..<m] =
      map (\<lambda>j. if succeeded (delete_vectors env (length (vector_calls w) + j) (batches_of keys ! j))
               then length (batches_of keys ! j) else 0) [0..<m]"
    by (rule map_cong) (simp_all only: nth [OF inm])
  have b: "map (\<lambda>j. failure_of (starts ! j)
               (delete_vectors env (length (vector_calls w) + j) (?b (starts ! j))))
              [0..<m] =
      map (\<lambda>j. failure_of (j * VECTORS_PER_BATCH)
               (delete_vectors env (length (vector_calls w) + j) (batches_of keys ! j)))
              [0..<m]"
    by (rule map_cong) (simp_all only: nth2 [OF inm] st [OF inm])
  have c: "map (\<lambda>s. DeleteVectors (?b s)) (take (Suc m) starts)
      = map DeleteVectors (take (Suc m) (batches_of keys))"
    by (simp add: batches_of_def starts_def o_def take_map)
  show ?thesis
    unfolding delete_document_vectors_def Let_def keys_def [symmetric] starts_def [symmetric]
      run a b c len by simp
qed

text \<open>
  C6, amended. For \<open>chunk_count \<ge> 0\<close> the keys are the \<open>chunk_count\<close> keys
  \<open>document_id#0 .. document_id#(chunk_count - 1)\<close>, cut in order into batches of at most
  500, and no request other than the deletes of these batches is sent to the index. The
  batches are submitted in order up to the first one, if any, that fails with an exception
  other than a \<open>ClientError\<close>: of the batches before it, each one that fails (with a
  \<open>ClientError\<close>) is logged and not counted, and each one that succeeds is counted. When
  there is no such batch every batch is submitted and the function returns, without
  raising, the number of keys in the batches that succeeded. When there is one, its
  exception is raised to the caller and the later batches are not submitted.
\<close>

theorem delete_document_vectors_best_effort:
  assumes "0 \<le> chunk_count"
  shows "(let keys = delete_keys d chunk_count;
              batches = batches_of keys;
              answer = (\<lambda>j. delete_vectors env (length (vector_calls w) + j) (batches ! j));
              deleted = (\<lambda>m. sum_list (map (\<lambda>j. if succeeded (answer j) then length (batches ! j)
                                                 else 0) [0..<m]));
              after = (\<lambda>m. w\<lparr>vector_calls := vector_calls w
                                    @ map DeleteVectors (take (Suc m) batches),
                                  warnings := warnings w
                                    @ concat (map (\<lambda>j. failure_of (j * 500) (answer j)) [0..<m])\<rparr>)
          in int (length keys) = chunk_count \<and>
             (\<forall>i < length keys. keys ! i = d @ ''#'' @ str_nat i) \<and>
             concat batches = keys \<and>
             (\<forall>b \<in> set batches. length b \<le> 500 \<and> b \<noteq> []) \<and>
             (\<exists>m \<le> length batches.
                (\<forall>j < m. \<forall>msg. answer j \<noteq> Inl (OtherError msg)) \<and>
                (if m = length batches
                 then delete_document_vectors env d chunk_count w = (Inr (deleted m), after m)
                 else (\<exists>msg. answer m = Inl (OtherError msg) \<and>
                         delete_document_vectors env d chunk_count w
                           = (Inl (OtherError msg), after m)))) \<and>
             ((\<forall>j < length batches. \<forall>msg. answer j \<noteq> Inl (OtherError msg)) \<longrightarrow>
                delete_document_vectors env d chunk_count w =
                  (Inr (deleted (length batches)),
                   w\<lparr>vector_calls := vector_calls w @ map DeleteVectors batches,
                     warnings := warnings w
                       @ concat (map (\<lambda>j. failure_of (j * 500) (answer j))
                           [0..<length batches])\<rparr>)))"
proof -
  define keys where "keys = delete_keys d chunk_count"
  define batches where "batches = batches_of keys"
  define answer where
    "answer = (\<lambda>j. delete_vectors env (length (vector_calls w) + j) (batches ! j))"
  define deleted where
    "deleted = (\<lambda>m. sum_list (map (\<lambda>j. if succeeded (answer j) then length (batches ! j)
                                       else 0) [0..<m]))"
  define after where
    "after = (\<lambda>m. w\<lparr>vector_calls := vector_calls w @ map DeleteVectors (take (Suc m) batches),
                       warnings := warnings w
                         @ concat (map (\<lambda>j. failure_of (j * 500) (answer j)) [0..<m])\<rparr>)"
  have stop: "delete_document_vectors env d chunk_count w =
      (if m = length batches then Inr (deleted m) else Inl (OtherError other), after m)"
    if "m \<le> length batches" "\<And>j msg. j < m \<Longrightarrow> answer j \<noteq> Inl (OtherError msg)"
      "m < length batches \<Longrightarrow> answer m = Inl (OtherError other)" for m other
    using delete_document_vectors_stop [of m d chunk_count env w other] that
    by (simp add: keys_def [symmetric] batches_def [symmetric] answer_def deleted_def after_def
        VECTORS_PER_BATCH_def cong: if_cong)
  have k1: "int (length keys) = chunk_count"
    and k2: "\<forall>i < length keys. keys ! i = d @ ''#'' @ str_nat i"
    using assms by (simp_all add: keys_def delete_keys_nth)
  have b1: "concat batches = keys" by (simp add: batches_def concat_batches_of)
  have b2: "\<forall>b \<in> set batches. length b \<le> 500 \<and> b \<noteq> []"
    using batches_of_bounded [of _ keys] by (auto simp: batches_def VECTORS_PER_BATCH_def)
  obtain m where m: "m \<le> length batches"
    "\<forall>j < m. \<forall>msg. answer j \<noteq> Inl (OtherError msg)"
    "m < length batches \<longrightarrow> \<not> (\<forall>msg. answer m \<noteq> Inl (OtherError msg))"
    using retry_count_exists [of "length batches" "\<lambda>j. \<forall>msg. answer j \<noteq> Inl (OtherError msg)"]
    by blast
  have first: "if m = length batches
                 then delete_document_vectors env d chunk_count w = (Inr (deleted m), after m)
                 else (\<exists>msg. answer m = Inl (OtherError msg) \<and>
                         delete_document_vectors env d chunk_count w
                           = (Inl (OtherError msg), after m))"
  proof (cases "m = length batches")
    case True
    with stop [OF m(1), of undefined] m(2) show ?thesis by simp
  next
    case False
    with m(1,3) obtain msg where msg: "answer m = Inl (OtherError msg)" by auto
    from stop [OF m(1), of msg] m(2) msg False show ?thesis by auto
  qed
  have some: "\<exists>m \<le> length batches.
                (\<forall>j < m. \<forall>msg. answer j \<noteq> Inl (OtherError msg)) \<and>
                (if m = length batches
                 then delete_document_vectors env d chunk_count w = (Inr (deleted m), after m)
                 else (\<exists>msg. answer m = Inl (OtherError msg) \<and>
                         delete_document_vectors env d chunk_count w
                           = (Inl (OtherError msg), after m)))"
    using m(1,2) first by (intro exI [of _ m] conjI)
  have full: "(\<forall>j < length batches. \<forall>msg. answer j \<noteq> Inl (OtherError msg)) \<longrightarrow>
      delete_document_vectors env d chunk_count w =
                  (Inr (deleted (length batches)),
                   w\<lparr>vector_calls := vector_calls w @ map DeleteVectors batches,
                     warnings := warnings w
                       @ concat (map (\<lambda>j. failure_of (j * 500) (answer j))
                           [0..<length batches])\<rparr>)"
    using stop [of "length batches" undefined] by (simp add: after_def)
  show ?thesis
    unfolding Let_def keys_def [symmetric] batches_def [symmetric]
    by (intro conjI k1 k2 b1 b2 some [unfolded answer_def deleted_def after_def]
        full [unfolded answer_def deleted_def after_def])
qed

theorem delete_document_vectors_best_effort_witness:
  "(0::int) \<le> 2 \<and> (0::int) \<le> 501 \<and>
   delete_document_vectors delete_refused ''doc'' 2 empty_trace =
     (Inr 0,
      \<lparr>calls = [], draws = 0, sleeps = [],
       vector_calls = [DeleteVectors [''doc#0'', ''doc#1'']],
       warnings = [(0, ClientError ''InternalServerException'' ''try later'')]\<rparr>) \<and>
   delete_document_vectors throttled_twice ''doc'' 2 empty_trace =
     (Inr 2,
      \<lparr>calls = [], draws = 0, sleeps = [],
       vector_calls = [DeleteVectors [''doc#0'', ''doc#1'']], warnings = []\<rparr>) \<and>
   length (batches_of (delete_keys ''doc'' 501)) = 2 \<and>
   delete_document_vectors refused_then_lost ''doc'' 501 empty_trace =
     (Inl (OtherError ''Could not connect to the endpoint URL''),
      \<lparr>calls = [], draws = 0, sleeps = [],
       vector_calls = map DeleteVectors (batches_of (delete_keys ''doc'' 501)),
       warnings = [(0, ClientError ''InternalServerException'' ''try later'')]\<rparr>)"
proof -
  have h: "(0::int) \<le> 2" by simp
  have h': "(0::int) \<le> 501" by simp
  have k: "delete_keys ''doc'' 2 = [''doc#0'', ''doc#1'']"
    by (simp add: delete_keys_def vector_key_def str_nat_small upt_rec numeral_2_eq_2)
  have b: "batches_of [''doc#0'', ''doc#1''] = [[''doc#0'', ''doc#1'']]"
    by (simp add: batches_of_def range_step_def VECTORS_PER_BATCH_def py_slice_def
        py_index_def Let_def)
  note last = conjunct2 [THEN conjunct2, THEN conjunct2, THEN conjunct2, THEN conjunct2]
  note mid = conjunct2 [THEN conjunct2, THEN conjunct2, THEN conjunct2, THEN conjunct1]
  from delete_document_vectors_best_effort [OF h, of "''doc''" delete_refused empty_trace,
      unfolded Let_def, THEN last]
  have r: "delete_document_vectors delete_refused ''doc'' 2 empty_trace =
     (Inr 0,
      \<lparr>calls = [], draws = 0, sleeps = [],
       vector_calls = [DeleteVectors [''doc#0'', ''doc#1'']],
       warnings = [(0, ClientError ''InternalServerException'' ''try later'')]\<rparr>)"
    by (simp add: k b delete_refused_def empty_trace_def succeeded_def failure_of_def)
  from delete_document_vectors_best_effort [OF h, of "''doc''" throttled_twice empty_trace,
      unfolded Let_def, THEN last]
  have t: "delete_document_vectors throttled_twice ''doc'' 2 empty_trace =
     (Inr 2,
      \<lparr>calls = [], draws = 0, sleeps = [],
       vector_calls = [DeleteVectors [''doc#0'', ''doc#1'']], warnings = []\<rparr>)"
    by (simp add: k b throttled_twice_def empty_trace_def succeeded_def failure_of_def)
  define bs where "bs = batches_of (delete_keys ''doc'' 501)"
  have len: "length bs = 2"
    by (simp add: bs_def length_batches_of range_step_def delete_keys_def VECTORS_PER_BATCH_def)
  have a0: "delete_vectors refused_then_lost (length (vector_calls empty_trace) + 0) ks
      = Inl (ClientError ''InternalServerException'' ''try later'')" for ks
    by (simp add: refused_then_lost_def empty_trace_def)
  have a1: "delete_vectors refused_then_lost (length (vector_calls empty_trace) + 1) ks
      = Inl (OtherError ''Could not connect to the endpoint URL'')" for ks
    by (simp add: refused_then_lost_def empty_trace_def)
  from delete_document_vectors_best_effort [OF h', of "''doc''" refused_then_lost empty_trace,
      unfolded Let_def, THEN mid, folded bs_def]
  obtain m where m: "m \<le> length bs"
    "\<forall>j < m. \<forall>msg. delete_vectors refused_then_lost (length (vector_calls empty_trace) + j)
        (bs ! j) \<noteq> Inl (OtherError msg)"
    "if m = length bs
     then delete_document_vectors refused_then_lost ''doc'' 501 empty_trace =
        (Inr (sum_list (map (\<lambda>j. if succeeded (delete_vectors refused_then_lost
                 (length (vector_calls empty_trace) + j) (bs ! j)) then length (bs ! j) else 0)
               [0..<m])),
         empty_trace\<lparr>vector_calls := vector_calls empty_trace
               @ map DeleteVectors (take (Suc m) bs),
            warnings := warnings empty_trace
               @ concat (map (\<lambda>j. failure_of (j * 500) (delete_vectors refused_then_lost
                   (length (vector_calls empty_trace) + j) (bs ! j))) [0..<m])\<rparr>)
     else (\<exists>msg. delete_vectors refused_then_lost (length (vector_calls empty_trace) + m)
                  (bs ! m) = Inl (OtherError msg) \<and>
             delete_document_vectors refused_then_lost ''doc'' 501 empty_trace =
               (Inl (OtherError msg),
                empty_trace\<lparr>vector_calls := vector_calls empty_trace
                     @ map DeleteVectors (take (Suc m) bs),
                   warnings := warnings empty_trace
                     @ concat (map (\<lambda>j. failure_of (j * 500) (delete_vectors refused_then_lost
                         (length (vector_calls empty_trace) + j) (bs ! j))) [0..<m])\<rparr>))"
    by blast
  have "m \<noteq> 0"
  proof
    assume "m = 0"
    with m(3) len a0 [of "bs ! 0"] show False by simp
  qed
  moreover have "m \<noteq> 2"
  proof
    assume "m = 2"
    with m(2) have "delete_vectors refused_then_lost (length (vector_calls empty_trace) + 1)
        (bs ! 1) \<noteq> Inl (OtherError ''Could not connect to the endpoint URL'')"
      by (elim allE [of _ 1]) simp
    with a1 [of "bs ! 1"] show False by simp
  qed
  ultimately have m1: "m = 1" using m(1) len by arith
  from m(3) have "delete_document_vectors refused_then_lost ''doc'' 501 empty_trace =
     (Inl (OtherError ''Could not connect to the endpoint URL''),
      \<lparr>calls = [], draws = 0, sleeps = [],
       vector_calls = map DeleteVectors bs,
       warnings = [(0, ClientError ''InternalServerException'' ''try later'')]\<rparr>)"
    unfolding m1 using len a0 [of "bs ! 0"] a1 [of "bs ! 1"]
    by (simp add: failure_of_def empty_trace_def)
  with r t len h h' show ?thesis unfolding bs_def by (intro conjI)
qed

section \<open>Store and delete address the same keys\<close>

lemma fold_put_other:
  "k \<notin> key ` set vs \<Longrightarrow> fold (\<lambda>v m. m(key v \<mapsto> v)) vs idx k = idx k"
  by (induction vs arbitrary: idx) auto

lemma fold_put_mem:
  "k \<in> key ` set vs \<Longrightarrow> fold (\<lambda>v m. m(key v \<mapsto> v)) vs idx k \<noteq> None"
proof (induction vs arbitrary: idx)
  case Nil
  then show ?case by simp
next
  case (Cons v vs)
  show ?case
  proof (cases "k \<in> key ` set vs")
    case True
    then show ?thesis using Cons.IH by simp
  next
    case False
    with Cons.prems have kv: "k = key v" by auto
    from False have "fold (\<lambda>v m. m(key v \<mapsto> v)) vs (idx(key v \<mapsto> v)) k = (idx(key v \<mapsto> v)) k"
      by (rule fold_put_other)
    with kv have "fold (\<lambda>v m. m(key v \<mapsto> v)) vs (idx(key v \<mapsto> v)) k = Some v" by simp
    then show ?thesis by (simp only: fold_simps o_apply) simp
  qed
qed

lemma fold_delete:
  "fold (\<lambda>k m. m(k := None)) ks idx = (\<lambda>k. if k \<in> set ks then None else idx k)"
  by (induction ks arbitrary: idx) (auto simp: fun_eq_iff)

lemma replay_append: "replay (xs @ ys) idx = replay ys (replay xs idx)"
  by (simp add: replay_def)

lemma replay_puts:
  "replay (map PutVectors (batches_of vs)) idx = fold (\<lambda>v m. m(key v \<mapsto> v)) vs idx"
proof -
  have "fold apply_request (map PutVectors bs) idx
      = fold (\<lambda>v m. m(key v \<mapsto> v)) (concat bs) idx" for bs
    by (induction bs arbitrary: idx) simp_all
  from this [of "batches_of vs"] show ?thesis by (simp add: replay_def concat_batches_of)
qed

lemma replay_deletes:
  "replay (map DeleteVectors (batches_of ks)) idx = (\<lambda>k. if k \<in> set ks then None else idx k)"
proof -
  have "fold apply_request (map DeleteVectors bs) idx
      = fold (\<lambda>k m. m(k := None)) (concat bs) idx" for bs
    by (induction bs arbitrary: idx) simp_all
  from this [of "batches_of ks"] show ?thesis
    by (simp add: replay_def concat_batches_of fold_delete)
qed

lemma delete_document_vectors_ok:
  assumes "\<forall>k ks. delete_vectors env k ks = Inr ()"
  shows "delete_document_vectors env d cc w =
     (Inr (length (delete_keys d cc)),
      w\<lparr>vector_calls := vector_calls w @ map DeleteVectors (batches_of (delete_keys d cc))\<rparr>)"
proof -
  have "delete_document_vectors env d cc w =
     (Inr (sum_list (map (\<lambda>j.
              if succeeded (delete_vectors env (length (vector_calls w) + j)
                    (batches_of (delete_keys d cc) ! j))
              then length (batches_of (delete_keys d cc) ! j) else 0)
            [0..<length (batches_of (delete_keys d cc))])),
      w\<lparr>vector_calls := vector_calls w @ map DeleteVectors (batches_of (delete_keys d cc)),
        warnings := warnings w
          @ concat (map (\<lambda>j. failure_of (j * VECTORS_PER_BATCH)
               (delete_vectors env (length (vector_calls w) + j)
                  (batches_of (delete_keys d cc) ! j)))
              [0..<length (batches_of (delete_keys d cc))])\<rparr>)"
    by (rule delete_document_vectors_run) (simp add: assms)
  moreover have "map (\<lambda>j. length (batches_of (delete_keys d cc) ! j))
       [0..<length (batches_of (delete_keys d cc))] = map length (batches_of (delete_keys d cc))"
    by (rule nth_equalityI) simp_all
  ultimately show ?thesis
    using sum_length_batches_of [of "delete_keys d cc"]
    by (simp add: assms succeeded_def failure_of_def)
qed

text \<open>
  C3. For chunk-text and embedding lists of the same length \<open>n\<close>, the keys of the records
  \<open>store_document_vectors\<close> writes are \<open>document_id#0 .. document_id#(n-1)\<close>, the very list
  \<open>delete_document_vectors(document_id, n)\<close> regenerates. On an index that accepts every
  request, storing and then deleting with \<open>chunk_count = n\<close> sends these puts and deletes
  and nothing else; after the store every key holds a record, after the delete none does
  and every other key is as before, so an index that held nothing under the prefix
  \<open>document_id#\<close> holds nothing under it afterwards.
\<close>

theorem store_delete_round_trip:
  assumes "length chunk_texts = n" "length embeddings = n"
    and "\<forall>k vs. put_vectors env k vs = Inr ()" "\<forall>k ks. delete_vectors env k ks = Inr ()"
  shows "(let vectors = build_vectors d f chunk_texts embeddings;
              keys = delete_keys d (int n);
              puts = map PutVectors (batches_of vectors);
              deletes = map DeleteVectors (batches_of keys);
              w1 = w\<lparr>vector_calls := vector_calls w @ puts\<rparr>;
              w2 = w1\<lparr>vector_calls := vector_calls w1 @ deletes\<rparr>
          in map key vectors = keys \<and>
             set keys = (\<lambda>i. d @ ''#'' @ str_nat i) ` {i. i < n} \<and>
             store_document_vectors env d f chunk_texts embeddings w = (Inr n, w1) \<and>
             delete_document_vectors env d (int n) w1 = (Inr n, w2) \<and>
             (\<forall>k \<in> set keys. replay puts idx k \<noteq> None) \<and>
             (\<forall>k. replay (puts @ deletes) idx k = (if k \<in> set keys then None else idx k)) \<and>
             ((\<forall>k \<in> dom idx. \<not> has_prefix (d @ ''#'') k) \<longrightarrow>
              (\<forall>k \<in> dom (replay (puts @ deletes) idx). \<not> has_prefix (d @ ''#'') k)))"
proof -
  define vectors where "vectors = build_vectors d f chunk_texts embeddings"
  define keys where "keys = delete_keys d (int n)"
  define puts where "puts = map PutVectors (batches_of vectors)"
  define deletes where "deletes = map DeleteVectors (batches_of keys)"
  define w1 where "w1 = w\<lparr>vector_calls := vector_calls w @ puts\<rparr>"
  define w2 where "w2 = w1\<lparr>vector_calls := vector_calls w1 @ deletes\<rparr>"
  have k: "map key vectors = keys"
    using assms(1,2) by (simp add: vectors_def keys_def keys_build_vectors delete_keys_def)
  have ks: "set keys = (\<lambda>i. d @ ''#'' @ str_nat i) ` {i. i < n}"
    by (auto simp: keys_def delete_keys_def vector_key_def)
  have len: "length vectors = n" "length keys = n"
    using assms(1,2) by (simp_all add: vectors_def keys_def length_build_vectors delete_keys_def)
  have st: "store_document_vectors env d f chunk_texts embeddings w = (Inr n, w1)"
    using store_document_vectors_ok [of d f chunk_texts embeddings env w] assms(3) len
    by (simp add: vectors_def [symmetric] w1_def puts_def)
  have de: "delete_document_vectors env d (int n) w1 = (Inr n, w2)"
    using delete_document_vectors_ok [OF assms(4), of d "int n" w1] len
    by (simp add: keys_def [symmetric] w2_def deletes_def)
  have kset: "key ` set vectors = set keys" using k by (metis set_map)
  have p: "\<forall>k \<in> set keys. replay puts idx k \<noteq> None"
    by (simp add: puts_def replay_puts fold_put_mem kset)
  have r: "replay (puts @ deletes) idx k = (if k \<in> set keys then None else idx k)" for k
    by (simp add: replay_append puts_def deletes_def replay_puts replay_deletes fold_put_other kset)
  have "\<forall>k \<in> dom (replay (puts @ deletes) idx). \<not> has_prefix (d @ ''#'') k"
    if "\<forall>k \<in> dom idx. \<not> has_prefix (d @ ''#'') k"
    using that by (auto simp: r dom_def split: if_splits)
  with k ks st de p r show ?thesis
    unfolding Let_def vectors_def [symmetric] keys_def [symmetric] puts_def [symmetric]
      deletes_def [symmetric] w1_def [symmetric] w2_def [symmetric]
    by blast
qed

theorem store_delete_round_trip_witness:
  "length [''one'', ''two''] = 2 \<and> length [[1, 0], [0, 1 :: real]] = 2 \<and>
   (\<forall>k vs. put_vectors throttled_twice k vs = Inr ()) \<and>
   (\<forall>k ks. delete_vectors throttled_twice k ks = Inr ()) \<and>
   map key (build_vectors ''doc'' ''f.txt'' [''one'', ''two''] [[1, 0], [0, 1]])
     = [''doc#0'', ''doc#1''] \<and>
   delete_keys ''doc'' (int 2) = [''doc#0'', ''doc#1''] \<and>
   fst (store_document_vectors throttled_twice ''doc'' ''f.txt'' [''one'', ''two'']
          [[1, 0], [0, 1]] empty_trace) = Inr 2 \<and>
   replay (map PutVectors (batches_of (build_vectors ''doc'' ''f.txt'' [''one'', ''two''] [[1, 0], [0, 1]]))
           @ map DeleteVectors (batches_of (delete_keys ''doc'' (int 2))))
      Map.empty ''doc#1'' = None"
proof -
  have h: "length [''one'', ''two''] = 2" "length [[1, 0], [0, 1 :: real]] = 2"
    "\<forall>k vs. put_vectors throttled_twice k vs = Inr ()"
    "\<forall>k ks. delete_vectors throttled_twice k ks = Inr ()"
    by (simp_all add: throttled_twice_def)
  have k: "delete_keys ''doc'' (int 2) = [''doc#0'', ''doc#1'']"
    by (simp add: delete_keys_def vector_key_def str_nat_small upt_rec numeral_2_eq_2)
  from store_delete_round_trip [OF h, of "''doc''" "''f.txt''" empty_trace Map.empty] h k
  show ?thesis by (simp add: Let_def)
qed

section \<open>Searching the knowledge base\<close>

text \<open>
  C7. Once the query embedding is there, an index that fails with
  \<open>ResourceNotFoundException\<close> makes \<open>search_knowledge_base\<close> return the "knowledge base is
  empty" text, and an answer without matches makes it return the "no relevant results"
  text. Both are returned, not raised; they differ from each other and from every error text
  the function returns.
\<close>

theorem search_knowledge_base_empty_signals:
  assumes "generate_embedding_vector env query w = (Inr q, w1)"
  shows "(let w2 = w1\<lparr>vector_calls := vector_calls w1 @ [QueryVectors q top_k]\<rparr>;
              answer = query_vectors env (length (vector_calls w1)) q top_k
          in (\<forall>msg. answer = Inl (ClientError ''ResourceNotFoundException'' msg) \<longrightarrow>
                search_knowledge_base env query top_k w = (Inr knowledge_base_empty, w2)) \<and>
             (answer = Inr [] \<longrightarrow>
                search_knowledge_base env query top_k w = (Inr no_relevant_results, w2)) \<and>
             (\<forall>code msg. answer = Inl (ClientError code msg) \<and> code \<noteq> ''ResourceNotFoundException''
                \<longrightarrow> search_knowledge_base env query top_k w
                      = (Inr (''Error searching knowledge base: '' @ msg), w2))) \<and>
         knowledge_base_empty \<noteq> no_relevant_results \<and>
         (\<forall>m. knowledge_base_empty \<noteq> ''Error searching knowledge base: '' @ m \<and>
              knowledge_base_empty \<noteq> ''Error generating query embedding: '' @ m \<and>
              no_relevant_results \<noteq> ''Error searching knowledge base: '' @ m \<and>
              no_relevant_results \<noteq> ''Error generating query embedding: '' @ m)"
  using assms
  by (auto simp add: search_knowledge_base_def Let_def knowledge_base_empty_def
      no_relevant_results_def)

theorem search_knowledge_base_empty_signals_witness:
  "generate_embedding_vector delete_refused ''q'' empty_trace =
     (Inr (Some [1, 0]),
      \<lparr>calls = [\<lparr>inputText = ''q'', dimensions = 2, normalize = True\<rparr>],
       draws = 0, sleeps = [], vector_calls = [], warnings = []\<rparr>) \<and>
   search_knowledge_base delete_refused ''q'' 5 empty_trace =
     (Inr ''The knowledge base is empty. No documents have been uploaded yet.'',
      \<lparr>calls = [\<lparr>inputText = ''q'', dimensions = 2, normalize = True\<rparr>],
       draws = 0, sleeps = [], vector_calls = [QueryVectors (Some [1, 0]) 5],
       warnings = []\<rparr>) \<and>
   generate_embedding_vector throttled_twice ''q'' empty_trace =
     (Inr (Some [1, 0]),
      \<lparr>calls = [\<lparr>inputText = ''q'', dimensions = 2, normalize = True\<rparr>,
                \<lparr>inputText = ''q'', dimensions = 2, normalize = True\<rparr>,
                \<lparr>inputText = ''q'', dimensions = 2, normalize = True\<rparr>],
       draws = 2, sleeps = [3 / 2, 5 / 2], vector_calls = [], warnings = []\<rparr>) \<and>
   fst (search_knowledge_base throttled_twice ''q'' 5 empty_trace) =
     Inr (''No relevant results found for your query. ''
          @ ''Try rephrasing your question or upload more documents.'')"
proof -
  note defs = generate_embedding_vector_def EMBEDDING_INPUT_LIMIT_CHARS_def MAX_RETRIES_def
    throttled_twice_def delete_refused_def empty_trace_def upt_six rate_limit_code_def Let_def
  have g1: "generate_embedding_vector delete_refused ''q'' empty_trace =
     (Inr (Some [1, 0]),
      \<lparr>calls = [\<lparr>inputText = ''q'', dimensions = 2, normalize = True\<rparr>],
       draws = 0, sleeps = [], vector_calls = [], warnings = []\<rparr>)"
    by (simp add: defs)
  have g2: "generate_embedding_vector throttled_twice ''q'' empty_trace =
     (Inr (Some [1, 0]),
      \<lparr>calls = [\<lparr>inputText = ''q'', dimensions = 2, normalize = True\<rparr>,
                \<lparr>inputText = ''q'', dimensions = 2, normalize = True\<rparr>,
                \<lparr>inputText = ''q'', dimensions = 2, normalize = True\<rparr>],
       draws = 2, sleeps = [3 / 2, 5 / 2], vector_calls = [], warnings = []\<rparr>)"
    by (simp add: defs)
  from search_knowledge_base_empty_signals [OF g1, of 5]
  have "search_knowledge_base delete_refused ''q'' 5 empty_trace =
     (Inr ''The knowledge base is empty. No documents have been uploaded yet.'',
      \<lparr>calls = [\<lparr>inputText = ''q'', dimensions = 2, normalize = True\<rparr>],
       draws = 0, sleeps = [], vector_calls = [QueryVectors (Some [1, 0]) 5],
       warnings = []\<rparr>)"
    by (simp add: Let_def delete_refused_def knowledge_base_empty_def)
  moreover from search_knowledge_base_empty_signals [OF g2, of 5]
  have "fst (search_knowledge_base throttled_twice ''q'' 5 empty_trace) =
     Inr (''No relevant results found for your query. ''
          @ ''Try rephrasing your question or upload more documents.'')"
    by (simp add: Let_def throttled_twice_def no_relevant_results_def)
  ultimately show ?thesis using g1 g2 by simp
qed

section \<open>Similarity scores and the order of the results\<close>

lemma enumerate_as_map:
  "map f (enumerate (Suc 0) xs) = map (\<lambda>k. f (Suc k, xs ! k)) [0..<length xs]"
  by (rule nth_equalityI) (simp_all add: nth_enumerate_eq)

text \<open>
  C8. The similarity of a match is \<open>max(0, 1 - distance)\<close>, the subtraction being the one
  of floats (the exact difference rounded to binary64, a rounding that is monotone and
  leaves 1 unchanged) and the distance being 0 when the match has none. It decreases
  monotonically with the distance: a larger distance never gives a larger similarity. It
  is never below 0 and, the distance being a dissimilarity (not negative) as the spec
  assumes, never above 1. The tier is High when the similarity is at least 0.7, Medium when
  it is at least 0.5 and below 0.7, Low otherwise, 0.7 and 0.5 being the float literals of
  the code. Each row of the result reports the tier and the similarity of its match, and
  the rows come in the order of the matches in the answer of the service, numbered from 1.
\<close>

theorem search_knowledge_base_scores:
  assumes "mono (round64 env)" "round64 env 1 = 1"
  shows "(\<forall>d. distance v = Some d \<longrightarrow>
      similarity env v = max 0 (round64 env (1 - d)) \<and>
      (0 \<le> d \<longrightarrow> similarity env v \<le> 1)) \<and>
   (distance v = None \<longrightarrow> similarity env v = 1) \<and>
   0 \<le> similarity env v \<and>
   (\<forall>d d'. distance v = Some d \<and> distance v' = Some d' \<and> d \<le> d' \<longrightarrow>
      similarity env v' \<le> similarity env v) \<and>
   (float_0_7 \<le> s \<longrightarrow> quality s = ''High'') \<and>
   (1 / 2 \<le> s \<and> s < float_0_7 \<longrightarrow> quality s = ''Medium'') \<and>
   (s < 1 / 2 \<longrightarrow> quality s = ''Low'') \<and>
   (\<exists>rest. format_result env (i, v) =
      ''--- Result '' @ str_nat i @ '' ['' @ quality (similarity env v) @ '' relevance: ''
        @ format_2f env (similarity env v) @ rest) \<and>
   (\<forall>q w1 vectors.
      generate_embedding_vector env query w = (Inr q, w1) \<and>
      query_vectors env (length (vector_calls w1)) q top_k = Inr vectors \<and> vectors \<noteq> [] \<longrightarrow>
      (\<exists>header.
         search_knowledge_base env query top_k w =
           (Inr (header @ join [CHR 0x0A]
                   (map (\<lambda>k. format_result env (k + 1, vectors ! k)) [0..<length vectors])),
            w1\<lparr>vector_calls := vector_calls w1 @ [QueryVectors q top_k]\<rparr>)))"
proof (intro conjI allI impI)
  fix d assume "distance v = Some d"
  then show "similarity env v = max 0 (round64 env (1 - d))" by (simp add: similarity_def)
  assume "0 \<le> d"
  then have "round64 env (1 - d) \<le> round64 env 1"
    by (intro monoD [OF assms(1)]) simp
  with \<open>distance v = Some d\<close> assms(2) show "similarity env v \<le> 1"
    by (simp add: similarity_def)
next
  assume "distance v = None"
  then show "similarity env v = 1" by (simp add: similarity_def)
next
  show "0 \<le> similarity env v" by (simp add: similarity_def split: option.splits)
next
  fix d d' assume a: "distance v = Some d \<and> distance v' = Some d' \<and> d \<le> d'"
  then have "round64 env (1 - d') \<le> round64 env (1 - d)"
    by (intro monoD [OF assms(1)]) simp
  with a show "similarity env v' \<le> similarity env v" by (auto simp: similarity_def)
next
  assume "float_0_7 \<le> s"
  then show "quality s = ''High''" by (simp add: quality_def)
next
  assume "1 / 2 \<le> s \<and> s < float_0_7"
  then show "quality s = ''Medium''" by (simp add: quality_def)
next
  assume "s < 1 / 2"
  then show "quality s = ''Low''" by (simp add: quality_def float_0_7_def)
next
  show "\<exists>rest. format_result env (i, v) =
      ''--- Result '' @ str_nat i @ '' ['' @ quality (similarity env v) @ '' relevance: ''
        @ format_2f env (similarity env v) @ rest"
    by (simp add: format_result_def Let_def)
next
  fix q w1 vectors
  assume a: "generate_embedding_vector env query w = (Inr q, w1) \<and>
      query_vectors env (length (vector_calls w1)) q top_k = Inr vectors \<and> vectors \<noteq> []"
  define header where "header = ''Found '' @ str_nat (length vectors)
     @ '' relevant passages for: '' @ [CHR 0x22] @ query @ [CHR 0x22] @ [CHR 0x0A, CHR 0x0A]"
  from a have "search_knowledge_base env query top_k w =
           (Inr (header @ join [CHR 0x0A]
                   (map (\<lambda>k. format_result env (k + 1, vectors ! k)) [0..<length vectors])),
            w1\<lparr>vector_calls := vector_calls w1 @ [QueryVectors q top_k]\<rparr>)"
    by (simp add: search_knowledge_base_def Let_def enumerate_as_map header_def)
  then show "\<exists>header.
         search_knowledge_base env query top_k w =
           (Inr (header @ join [CHR 0x0A]
                   (map (\<lambda>k. format_result env (k + 1, vectors ! k)) [0..<length vectors])),
            w1\<lparr>vector_calls := vector_calls w1 @ [QueryVectors q top_k]\<rparr>)"
    by (rule exI [of _ header])
qed

theorem search_knowledge_base_scores_witness:
  "mono (round64 two_matches) \<and> round64 two_matches 1 = 1 \<and>
   distance near_match = Some (1 / 4) \<and> distance far_match = Some (7 / 8) \<and>
   (0::real) \<le> 1 / 4 \<and>
   similarity two_matches near_match = 3 / 4 \<and> similarity two_matches near_match \<le> 1 \<and>
   similarity two_matches far_match \<le> similarity two_matches near_match \<and>
   float_0_7 \<le> 3 / 4 \<and> quality (3 / 4) = ''High'' \<and>
   (\<exists>header.
      search_knowledge_base two_matches ''q'' 5 empty_trace =
        (Inr (header @ join [CHR 0x0A]
                [format_result two_matches (1, near_match), format_result two_matches (2, far_match)]),
         \<lparr>calls = [\<lparr>inputText = ''q'', dimensions = 2, normalize = True\<rparr>],
          draws = 0, sleeps = [], vector_calls = [QueryVectors (Some [1, 0]) 5],
          warnings = []\<rparr>))"
proof -
  have h: "mono (round64 two_matches)" "round64 two_matches 1 = 1"
    by (simp_all add: two_matches_def mono_def)
  have d: "distance near_match = Some (1 / 4)" "distance far_match = Some (7 / 8)"
    by (simp_all add: near_match_def far_match_def)
  have f: "float_0_7 \<le> 3 / 4" by (simp add: float_0_7_def)
  have g: "generate_embedding_vector two_matches ''q'' empty_trace =
     (Inr (Some [1, 0]),
      \<lparr>calls = [\<lparr>inputText = ''q'', dimensions = 2, normalize = True\<rparr>],
       draws = 0, sleeps = [], vector_calls = [], warnings = []\<rparr>)"
    by (simp add: generate_embedding_vector_def EMBEDDING_INPUT_LIMIT_CHARS_def MAX_RETRIES_def
        two_matches_def empty_trace_def upt_six rate_limit_code_def Let_def)
  have q: "query_vectors two_matches
       (length (vector_calls \<lparr>calls = [\<lparr>inputText = ''q'', dimensions = 2, normalize = True\<rparr>],
          draws = 0, sleeps = [], vector_calls = [], warnings = []\<rparr>)) (Some [1, 0]) 5
     = Inr [near_match, far_match]" "[near_match, far_match] \<noteq> []"
    by (simp_all add: two_matches_def)
  note t = search_knowledge_base_scores [OF h, of near_match far_match "3 / 4" 1 "''q''"
      empty_trace 5]
  note c1 = t [THEN conjunct1]
  note c4 = t [THEN conjunct2, THEN conjunct2, THEN conjunct2, THEN conjunct1]
  note c5 = t [THEN conjunct2, THEN conjunct2, THEN conjunct2, THEN conjunct2, THEN conjunct1]
  note c9 = t [THEN conjunct2, THEN conjunct2, THEN conjunct2, THEN conjunct2, THEN conjunct2,
      THEN conjunct2, THEN conjunct2, THEN conjunct2]
  from c1 d(1) have "similarity two_matches near_match = max 0 (round64 two_matches (1 - 1 / 4)) \<and>
      (0 \<le> (1 / 4 :: real) \<longrightarrow> similarity two_matches near_match \<le> 1)" by blast
  then have s1: "similarity two_matches near_match = 3 / 4" "similarity two_matches near_match \<le> 1"
    by (simp_all add: two_matches_def)
  from c4 [rule_format, of "1 / 4" "7 / 8"] d
  have s2: "similarity two_matches far_match \<le> similarity two_matches near_match" by simp
  from c5 f have s3: "quality (3 / 4) = ''High''" by simp
  from c9 [rule_format, of "Some [1, 0]" _ "[near_match, far_match]"] g q
  obtain header where "search_knowledge_base two_matches ''q'' 5 empty_trace =
        (Inr (header @ join [CHR 0x0A]
                (map (\<lambda>k. format_result two_matches (k + 1, [near_match, far_match] ! k))
                   [0..<length [near_match, far_match]])),
         \<lparr>calls = [\<lparr>inputText = ''q'', dimensions = 2, normalize = True\<rparr>],
          draws = 0, sleeps = [], vector_calls = [], warnings = []\<rparr>
           \<lparr>vector_calls := vector_calls
               \<lparr>calls = [\<lparr>inputText = ''q'', dimensions = 2, normalize = True\<rparr>],
                draws = 0, sleeps = [], vector_calls = [], warnings = []\<rparr>
              @ [QueryVectors (Some [1, 0]) 5]\<rparr>)"
    by blast
  then have "search_knowledge_base two_matches ''q'' 5 empty_trace =
        (Inr (header @ join [CHR 0x0A]
                [format_result two_matches (1, near_match), format_result two_matches (2, far_match)]),
         \<lparr>calls = [\<lparr>inputText = ''q'', dimensions = 2, normalize = True\<rparr>],
          draws = 0, sleeps = [], vector_calls = [QueryVectors (Some [1, 0]) 5],
          warnings = []\<rparr>)"
    by (simp add: upt_rec numeral_2_eq_2)
  then have "\<exists>header.
      search_knowledge_base two_matches ''q'' 5 empty_trace =
        (Inr (header @ join [CHR 0x0A]
                [format_result two_matches (1, near_match), format_result two_matches (2, far_match)]),
         \<lparr>calls = [\<lparr>inputText = ''q'', dimensions = 2, normalize = True\<rparr>],
          draws = 0, sleeps = [], vector_calls = [QueryVectors (Some [1, 0]) 5],
          warnings = []\<rparr>)"
    by (rule exI [of _ header])
  moreover have "(0::real) \<le> 1 / 4" by simp
  ultimately show ?thesis using s1 s2 s3 d h f by (intro conjI)
qed

end
